theory Spec2Isabelle
  imports Main "HOL-Library.Word"
begin

section \<open>Python strings, whitespace and slicing\<close>

text \<open>
  A Python \<^verbatim>\<open>str\<close> is a sequence of Unicode code points, and \<^verbatim>\<open>len\<close> and slicing
  count code points; it is modelled as a list of code points. \<open>u\<close> turns an ASCII
  literal of the source into such a list.
\<close>

type_synonym pystr = "nat list"

definition u :: "string \<Rightarrow> pystr" where
  "u s = map of_char s"

text \<open>
  The characters \<^verbatim>\<open>str.split()\<close> separates on (those for which \<^verbatim>\<open>str.isspace\<close> holds):
  U+0009..U+000D, U+001C..U+0020, U+0085, U+00A0, U+1680, U+2000..U+200A, U+2028,
  U+2029, U+202F, U+205F and U+3000.
\<close>

definition isspace :: "nat \<Rightarrow> bool" where
  "isspace c \<longleftrightarrow>
     (9 \<le> c \<and> c \<le> 13) \<or> (28 \<le> c \<and> c \<le> 32) \<or> c = 133 \<or> c = 160 \<or> c = 5760 \<or>
     (8192 \<le> c \<and> c \<le> 8202) \<or> c = 8232 \<or> c = 8233 \<or> c = 8239 \<or> c = 8287 \<or>
     c = 12288"

text \<open>
  \<^verbatim>\<open>s.split()\<close>: skip whitespace, take the maximal run of other characters as a word,
  go on behind it; no empty word is produced.
\<close>

function split_ws :: "pystr \<Rightarrow> pystr list" where
  "split_ws s =
     (case dropWhile isspace s of
        [] \<Rightarrow> []
      | c # r \<Rightarrow>
          takeWhile (\<lambda>x. \<not> isspace x) (c # r) #
          split_ws (dropWhile (\<lambda>x. \<not> isspace x) (c # r)))"
  by pat_completeness auto
termination
proof (relation "measure length")
  show "wf (measure length)" by simp
next
  fix s :: pystr and c r
  assume a: "dropWhile isspace s = c # r"
  have "\<not> isspace c" using a hd_dropWhile[of isspace s] by auto
  then have "length (dropWhile (\<lambda>x. \<not> isspace x) (c # r)) \<le> length r"
    by (simp add: length_dropWhile_le)
  moreover have "length (c # r) \<le> length s"
    using a length_dropWhile_le[of isspace s] by simp
  ultimately show "(dropWhile (\<lambda>x. \<not> isspace x) (c # r), s) \<in> measure length"
    by simp
qed

declare split_ws.simps [simp del]

text \<open>\<^verbatim>\<open>sep.join(words)\<close>.\<close>

fun join_str :: "pystr \<Rightarrow> pystr list \<Rightarrow> pystr" where
  "join_str sep [] = []"
| "join_str sep [w] = w"
| "join_str sep (w # v # ws) = w @ sep @ join_str sep (v # ws)"

text \<open>\<^verbatim>\<open>_norm_ws(s) = " ".join((s or "").split())\<close>; the argument is a \<^verbatim>\<open>str\<close> here.\<close>

definition norm_ws :: "pystr \<Rightarrow> pystr" where
  "norm_ws s = join_str (u '' '') (split_ws s)"

text \<open>
  \<^verbatim>\<open>xs[start:stop]\<close> for integers \<^verbatim>\<open>start\<close>, \<^verbatim>\<open>stop\<close>: a negative bound counts from
  the end, and both bounds are clamped to \<open>0 .. len(xs)\<close>; the slice is empty when the
  bounds cross.
\<close>

definition slice_bound :: "int \<Rightarrow> int \<Rightarrow> int" where
  "slice_bound n k = (if k < 0 then max (k + n) 0 else min k n)"

definition py_slice :: "'a list \<Rightarrow> int \<Rightarrow> int \<Rightarrow> 'a list" where
  "py_slice xs start stop =
     (let n = int (length xs); a = slice_bound n start; b = slice_bound n stop
      in take (nat (b - a)) (drop (nat a) xs))"

section \<open>The text chunker\<close>

definition CHUNK_SIZE :: int where
  "CHUNK_SIZE = 900"

definition CHUNK_OVERLAP :: int where
  "CHUNK_OVERLAP = 150"

text \<open>
  The \<^verbatim>\<open>while i < len(text)\<close> loop of \<^verbatim>\<open>_chunk_text\<close>, with its state \<open>i\<close> and
  \<open>chunks\<close>. The loop does not know that \<open>step\<close> is positive, so on its own it need
  not return: \<open>None\<close> is "no result".
\<close>

partial_function (option) chunk_loop ::
  "pystr \<Rightarrow> int \<Rightarrow> int \<Rightarrow> int \<Rightarrow> pystr list \<Rightarrow> pystr list option" where
  "chunk_loop txt sz step i chunks =
     (if i < int (length txt)
      then chunk_loop txt sz step (i + step) (chunks @ [py_slice txt i (i + sz)])
      else Some chunks)"

definition chunk_text :: "pystr \<Rightarrow> int \<Rightarrow> int \<Rightarrow> pystr list option" where
  "chunk_text txt0 sz overlap =
     (let txt = norm_ws txt0
      in if txt = [] then Some []
         else chunk_loop txt sz (max (sz - overlap) 1) 0 [])"

text \<open>The number of loop iterations over a text of \<open>len\<close> characters: \<open>\<lceil>len / step\<rceil>\<close>.\<close>

definition chunk_count :: "nat \<Rightarrow> nat \<Rightarrow> nat" where
  "chunk_count len step = (len + step - 1) div step"


section \<open>The contract of the text normalizer, in the specification's words\<close>

text \<open>
  "Collapse all whitespace runs to single spaces": every maximal run of whitespace
  characters becomes one space (U+0020).
\<close>

function collapse_runs :: "pystr \<Rightarrow> pystr" where
  "collapse_runs [] = []"
| "collapse_runs (c # cs) =
     (if isspace c then 32 # collapse_runs (dropWhile isspace cs) else c # collapse_runs cs)"
  by pat_completeness auto
termination
  by (relation "measure length") (auto simp: length_dropWhile_le le_imp_less_Suc)

text \<open>"Trim ends": \<^verbatim>\<open>s.rstrip()\<close> and \<^verbatim>\<open>s.strip()\<close>.\<close>

definition rstrip :: "pystr \<Rightarrow> pystr" where
  "rstrip s = rev (dropWhile isspace (rev s))"

definition strip_ws :: "pystr \<Rightarrow> pystr" where
  "strip_ws s = rstrip (dropWhile isspace s)"

text \<open>
  "A sequence of overlapping substrings of length \<open>S\<close>, stepping by \<open>S - O\<close>, covering the
  string to its end": the slices of length \<open>S\<close> at the offsets \<open>0, step, 2 * step, ...\<close>
  below the length of the string.
\<close>

definition windows :: "pystr \<Rightarrow> nat \<Rightarrow> nat \<Rightarrow> pystr list" where
  "windows t S step = map (\<lambda>k. take S (drop (k * step) t)) [0..<chunk_count (length t) step]"

text \<open>
  "Reversing the overlap": the first chunk, followed by every later chunk without its first
  \<open>ov\<close> characters.
\<close>

definition rebuild :: "nat \<Rightarrow> pystr list \<Rightarrow> pystr" where
  "rebuild ov cs = (case cs of [] \<Rightarrow> [] | c # rest \<Rightarrow> c @ concat (map (drop ov) rest))"

text \<open>
  Two consecutive chunks share exactly \<open>ov\<close> characters at their boundary: the last \<open>ov\<close>
  characters of the first are the first \<open>ov\<close> characters of the second.
\<close>

definition boundary_overlap :: "nat \<Rightarrow> pystr \<Rightarrow> pystr \<Rightarrow> bool" where
  "boundary_overlap ov a b \<longleftrightarrow>
     ov \<le> length a \<and> ov \<le> length b \<and> drop (length a - ov) a = take ov b"
section \<open>Values, chunks and metadata\<close>

text \<open>
  A chunk is the pair \<^verbatim>\<open>(content, metadata)\<close>. The metadata is a Python \<^verbatim>\<open>dict\<close> with string
  keys: a map from keys to values, where a key that is present may hold \<^verbatim>\<open>None\<close>.
\<close>

datatype pyval = PNone | PInt int | PStr pystr

type_synonym meta = "string \<rightharpoonup> pyval"

type_synonym chunk = "pystr \<times> meta"

type_synonym byte = "8 word"

text \<open>What a call does not deliver a result with: it raises, or (the chunking loop) it does not return.\<close>

datatype failure = Raises | NoReturn

text \<open>\<^verbatim>\<open>str(n)\<close> for an integer, as the f-strings format it.\<close>

function str_nat :: "nat \<Rightarrow> pystr" where
  "str_nat n = (if n < 10 then [48 + n] else str_nat (n div 10) @ [48 + n mod 10])"
  by pat_completeness auto
termination
  by (relation "measure id") auto

declare str_nat.simps [simp del]

definition str_int :: "int \<Rightarrow> pystr" where
  "str_int i = (if i < 0 then 45 # str_nat (nat (- i)) else str_nat (nat i))"

text \<open>\<^verbatim>\<open>a or b\<close> on strings: the empty string is false.\<close>

definition or_str :: "pystr \<Rightarrow> pystr \<Rightarrow> pystr" where
  "or_str a b = (if a \<noteq> [] then a else b)"

definition page_val :: "int option \<Rightarrow> pyval" where
  "page_val page = (case page of None \<Rightarrow> PNone | Some n \<Rightarrow> PInt n)"

definition text_meta_chunk :: "pystr \<Rightarrow> pystr \<Rightarrow> int option \<Rightarrow> chunk" where
  "text_meta_chunk content orig_filename page =
     (content,
      [''type'' \<mapsto> PStr (u ''text''), ''orig_filename'' \<mapsto> PStr orig_filename,
       ''page'' \<mapsto> page_val page])"

definition image_meta_chunk ::
  "pystr \<Rightarrow> pystr \<Rightarrow> pystr \<Rightarrow> int option \<Rightarrow> int \<Rightarrow> pystr option \<Rightarrow> chunk" where
  "image_meta_chunk caption_short rel_image_path orig_filename page fig caption_full =
     (u ''[Figure '' @ str_int fig @ u ''] '' @ or_str caption_short (u ''Image from document''),
      [''type'' \<mapsto> PStr (u ''image''),
       ''image_path'' \<mapsto> PStr rel_image_path,
       ''orig_filename'' \<mapsto> PStr orig_filename,
       ''page'' \<mapsto> page_val page,
       ''figure_no'' \<mapsto> PInt fig,
       ''caption'' \<mapsto>
          PStr (or_str (case caption_full of None \<Rightarrow> caption_short
                        | Some full \<Rightarrow> or_str full caption_short) [])])"

text \<open>
  \<^verbatim>\<open>_chunk_text(t)\<close> with the default size and overlap, as every loader calls it.
\<close>

definition text_chunks :: "pystr \<Rightarrow> failure + pystr list" where
  "text_chunks t =
     (case chunk_text t CHUNK_SIZE CHUNK_OVERLAP of None \<Rightarrow> Inl NoReturn | Some cs \<Rightarrow> Inr cs)"

section \<open>Paths and the world outside\<close>

text \<open>
  The functions of \<^verbatim>\<open>os.path\<close> the loaders use, for POSIX paths: the separator is \<open>/\<close> (47)
  and the extension separator is \<open>.\<close> (46).
\<close>

definition basename :: "pystr \<Rightarrow> pystr" where
  "basename p = rev (takeWhile (\<lambda>c. c \<noteq> 47) (rev p))"

text \<open>
  \<^verbatim>\<open>os.path.splitext\<close>: the extension starts at the last dot of the last path component,
  unless only dots stand before it in that component.
\<close>

definition splitext :: "pystr \<Rightarrow> pystr \<times> pystr" where
  "splitext p =
     (let name = basename p;
          tail = takeWhile (\<lambda>c. c \<noteq> 46) (rev name);
          front = dropWhile (\<lambda>c. c \<noteq> 46) (rev name)
      in if front = [] \<or> list_all (\<lambda>c. c = 46) (tl front) then (p, [])
         else (take (length p - Suc (length tail)) p, 46 # rev tail))"

text \<open>\<^verbatim>\<open>os.path.join(a, b)\<close>.\<close>

definition path_join :: "pystr \<Rightarrow> pystr \<Rightarrow> pystr" where
  "path_join a b =
     (if take 1 b = [47] then b
      else if a = [] \<or> drop (length a - 1) a = [47] then a @ b
      else a @ [47] @ b)"

text \<open>\<^verbatim>\<open>s.split(sep)\<close> for a one-character separator: empty pieces are kept.\<close>

fun split_on :: "nat \<Rightarrow> pystr \<Rightarrow> pystr list" where
  "split_on sep [] = [[]]"
| "split_on sep (c # cs) =
     (if c = sep then [] # split_on sep cs
      else (case split_on sep cs of [] \<Rightarrow> [[c]] | w # ws \<Rightarrow> (c # w) # ws))"

text \<open>
  The components of \<^verbatim>\<open>os.path.abspath(p)\<close>, the normalized path of \<open>p\<close> under the working
  directory \<open>wd\<close> (an absolute path): empty components and \<open>.\<close> are skipped, \<open>..\<close> removes
  the component before it and does nothing at the root.
\<close>

definition norm_step :: "pystr list \<Rightarrow> pystr \<Rightarrow> pystr list" where
  "norm_step comps c =
     (if c = [] \<or> c = u ''.'' then comps
      else if c = u ''..'' then butlast comps
      else comps @ [c])"

definition abs_comps :: "pystr \<Rightarrow> pystr \<Rightarrow> pystr list" where
  "abs_comps wd p = foldl norm_step [] (split_on 47 (path_join wd p))"

fun common_prefix_len :: "pystr list \<Rightarrow> pystr list \<Rightarrow> nat" where
  "common_prefix_len (x # xs) (y # ys) = (if x = y then Suc (common_prefix_len xs ys) else 0)"
| "common_prefix_len _ _ = 0"

text \<open>
  \<^verbatim>\<open>os.path.relpath(path, start)\<close>. It raises for an empty \<open>path\<close>; the loaders pass a path
  that ends in an image file name.
\<close>

definition relpath :: "pystr \<Rightarrow> pystr \<Rightarrow> pystr \<Rightarrow> pystr" where
  "relpath wd path start =
     (let start_list = abs_comps wd start;
          path_list = abs_comps wd path;
          i = common_prefix_len start_list path_list;
          rel_list = replicate (length start_list - i) (u ''..'') @ drop i path_list
      in if rel_list = [] then u ''.'' else join_str (u ''/'') rel_list)"

text \<open>\<^verbatim>\<open>s.replace("\\", "/")\<close>.\<close>

definition backslash_to_slash :: "pystr \<Rightarrow> pystr" where
  "backslash_to_slash s = map (\<lambda>c. if c = 92 then 47 else c) s"

text \<open>
  \<^verbatim>\<open>s.lower()\<close> on ASCII letters. Beyond ASCII the Unicode case table is not modelled;
  no character outside ASCII lowers to a letter of the extensions compared below.
\<close>

definition lower :: "pystr \<Rightarrow> pystr" where
  "lower s = map (\<lambda>c. if 65 \<le> c \<and> c \<le> 90 then c + 32 else c) s"

text \<open>\<^verbatim>\<open>sub in s\<close> on strings.\<close>

fun starts_with :: "pystr \<Rightarrow> pystr \<Rightarrow> bool" where
  "starts_with [] s = True"
| "starts_with (a # sub) [] = False"
| "starts_with (a # sub) (c # s) = (a = c \<and> starts_with sub s)"

fun contains :: "pystr \<Rightarrow> pystr \<Rightarrow> bool" where
  "contains sub [] = (sub = [])"
| "contains sub (c # s) = (starts_with sub (c # s) \<or> contains sub s)"

text \<open>\<^verbatim>\<open>s.splitlines()\<close>: the line boundaries of \<^verbatim>\<open>str\<close>, with \<open>\r\n\<close> as one boundary.\<close>

definition is_linebreak :: "nat \<Rightarrow> bool" where
  "is_linebreak c \<longleftrightarrow>
     (10 \<le> c \<and> c \<le> 13) \<or> (28 \<le> c \<and> c \<le> 30) \<or> c = 133 \<or> c = 8232 \<or> c = 8233"

fun splitlines_from :: "pystr \<Rightarrow> pystr \<Rightarrow> pystr list" where
  "splitlines_from cur [] = (if cur = [] then [] else [cur])"
| "splitlines_from cur [c] = (if is_linebreak c then [cur] else [cur @ [c]])"
| "splitlines_from cur (c # d # s) =
     (if c = 13 \<and> d = 10 then cur # splitlines_from [] s
      else if is_linebreak c then cur # splitlines_from [] (d # s)
      else splitlines_from (cur @ [c]) (d # s))"

definition splitlines :: "pystr \<Rightarrow> pystr list" where
  "splitlines s = splitlines_from [] s"

text \<open>
  The world a call runs in. The loaders read documents through PyMuPDF, python-docx and
  python-pptx and write image files; what these libraries deliver for a path, and whether a
  directory can be made and a file written, is given from outside.
\<close>

record pixmap =
  pix_n :: int
  pix_png :: "byte list"

text \<open>
  An entry of \<^verbatim>\<open>page.get_images\<close>: \<open>img_pixmap\<close> is \<^verbatim>\<open>fitz.Pixmap(doc, xref)\<close> and \<open>img_rgb\<close> is
  \<^verbatim>\<open>fitz.Pixmap(fitz.csRGB, pix)\<close>, each \<open>None\<close> when the constructor raises.
\<close>

record pdf_image =
  img_pixmap :: "pixmap option"
  img_rgb :: "pixmap option"

record pdf_page =
  page_text :: pystr
  page_images :: "pdf_image list"

type_synonym pdf_doc = "pdf_page list"

text \<open>
  An image part of a DOCX package: its content type (\<open>None\<close>: no such attribute, or
  \<^verbatim>\<open>None\<close>) and its blob (\<open>None\<close>: reading it raises).
\<close>

record docx_part =
  part_content_type :: "pystr option"
  part_blob :: "byte list option"

text \<open>
  A DOCX document: the texts of its paragraphs; the parts with a blob that iterating
  \<^verbatim>\<open>package.part_related_by\<close> finds (\<open>None\<close>: the attribute is missing or false, or the
  attempt raises); and \<^verbatim>\<open>list(package.image_parts)\<close> (\<open>None\<close>: no such attribute, or it
  raises).
\<close>

record docx_doc =
  docx_paragraphs :: "pystr list"
  docx_related :: "docx_part list option"
  docx_image_parts :: "docx_part list option"

datatype shape_kind = PICTURE | OTHER_SHAPE

text \<open>\<^verbatim>\<open>shape.image\<close>: its file name (\<open>None\<close>: not a string) and its bytes.\<close>

record pptx_image =
  image_filename :: "pystr option"
  image_blob :: "byte list"

text \<open>
  A shape of a slide. \<open>None\<close> stands for: the attribute \<^verbatim>\<open>has_text_frame\<close> is missing; the
  attribute \<^verbatim>\<open>text\<close> is missing; reading \<^verbatim>\<open>shape_type\<close> raises; reading \<^verbatim>\<open>image\<close> raises;
  \<^verbatim>\<open>alternative_text\<close> is missing, \<^verbatim>\<open>None\<close> or raises.
\<close>

record shape =
  shape_has_text_frame :: "bool option"
  shape_text :: "pystr option"
  shape_type :: "shape_kind option"
  shape_image :: "pptx_image option"
  shape_alt_text :: "pystr option"

type_synonym pptx_doc = "shape list list"

record env =
  uni_alnum :: "nat \<Rightarrow> bool"
  getcwd :: pystr
  can_mkdir :: "pystr \<Rightarrow> bool"
  can_write :: "pystr \<Rightarrow> bool"
  pdf_at :: "pystr \<Rightarrow> pdf_doc option"
  docx_at :: "pystr \<Rightarrow> docx_doc option"
  pptx_at :: "pystr \<Rightarrow> pptx_doc option"
  bytes_at :: "pystr \<Rightarrow> byte list option"

text \<open>
  \<^verbatim>\<open>c.isalnum()\<close>: the ASCII letters and digits; beyond ASCII the Unicode table, which the
  world supplies as \<open>uni_alnum\<close>.
\<close>

definition isalnum :: "env \<Rightarrow> nat \<Rightarrow> bool" where
  "isalnum e c =
     (if c < 128 then (48 \<le> c \<and> c \<le> 57) \<or> (65 \<le> c \<and> c \<le> 90) \<or> (97 \<le> c \<and> c \<le> 122)
      else uni_alnum e c)"

definition slug :: "env \<Rightarrow> pystr \<Rightarrow> pystr" where
  "slug e s = map (\<lambda>c. if isalnum e c \<or> c = 45 \<or> c = 95 \<or> c = 46 then c else 95) s"

text \<open>\<^verbatim>\<open>_assets_dir\<close>: \<^verbatim>\<open>os.makedirs\<close> may raise.\<close>

definition assets_dir :: "env \<Rightarrow> pystr \<Rightarrow> pystr \<Rightarrow> failure + pystr" where
  "assets_dir e filepath uploads_root =
     (let base = fst (splitext (basename filepath));
          dir_path = path_join uploads_root (slug e base @ u ''_assets'')
      in if can_mkdir e dir_path then Inr dir_path else Inl Raises)"

section \<open>The loaders\<close>

text \<open>
  The state of a loader while it runs: the \<^verbatim>\<open>results\<close> list, the \<^verbatim>\<open>figure_no\<close> counter, and
  the image files written so far by this call, each with its path and bytes, in the order
  of writing. A loader returns its results; the files are its effect on the file system.
\<close>

record lstate =
  results :: "chunk list"
  figure_no :: int
  written :: "(pystr \<times> byte list) list"

definition init_state :: lstate where
  "init_state = \<lparr>results = [], figure_no = 1, written = []\<rparr>"

text \<open>A \<^verbatim>\<open>for\<close> loop whose body may raise: the first failure ends the loop.\<close>

fun for_each :: "('s \<Rightarrow> 'a \<Rightarrow> failure + 's) \<Rightarrow> 's \<Rightarrow> 'a list \<Rightarrow> failure + 's" where
  "for_each body st [] = Inr st"
| "for_each body st (x # xs) =
     (case body st x of Inl f \<Rightarrow> Inl f | Inr st' \<Rightarrow> for_each body st' xs)"

text \<open>\<^verbatim>\<open>enumerate(xs, start)\<close>.\<close>

definition enumerate_from :: "int \<Rightarrow> 'a list \<Rightarrow> (int \<times> 'a) list" where
  "enumerate_from start xs = zip (map (\<lambda>k. start + int k) [0..<length xs]) xs"

text \<open>
  The common tail of the three \<^verbatim>\<open>try\<close> blocks: once the bytes are written to \<open>save_abs\<close>,
  the image chunk is appended and the counter advances.
\<close>

definition emit_image ::
  "env \<Rightarrow> pystr \<Rightarrow> pystr \<Rightarrow> int option \<Rightarrow> pystr \<Rightarrow> pystr \<Rightarrow> byte list \<Rightarrow> lstate \<Rightarrow> lstate" where
  "emit_image e uploads_root filename page caption save_abs data st =
     (let rel_path = backslash_to_slash (relpath (getcwd e) save_abs uploads_root)
      in st\<lparr>results := results st @
                 [image_meta_chunk caption rel_path filename page (figure_no st) (Some caption)],
            figure_no := figure_no st + 1,
            written := written st @ [(save_abs, data)]\<rparr>)"

subsection \<open>PDF\<close>

definition pdf_image_name :: "env \<Rightarrow> pystr \<Rightarrow> int \<Rightarrow> int \<Rightarrow> pystr" where
  "pdf_image_name e filename pidx idx =
     slug e (fst (splitext filename)) @ u ''_p'' @ str_int (pidx + 1) @ u ''_'' @ str_int idx @
     u ''.png''"

text \<open>
  The body of the \<^verbatim>\<open>try\<close> for one image of a page; every exception leaves the state as it
  was (\<^verbatim>\<open>continue\<close>).
\<close>

definition pdf_save_image ::
  "env \<Rightarrow> pystr \<Rightarrow> pystr \<Rightarrow> pystr \<Rightarrow> int \<Rightarrow> pystr \<Rightarrow> lstate \<Rightarrow> int \<times> pdf_image \<Rightarrow> lstate" where
  "pdf_save_image e assets filename uploads_root pidx simple_caption st entry =
     (case img_pixmap (snd entry) of
        None \<Rightarrow> st
      | Some pix0 \<Rightarrow>
          (case (if pix_n pix0 > 4 then img_rgb (snd entry) else Some pix0) of
             None \<Rightarrow> st
           | Some pix \<Rightarrow>
               (let save_abs = path_join assets (pdf_image_name e filename pidx (fst entry))
                in if can_write e save_abs
                   then emit_image e uploads_root filename (Some (pidx + 1)) simple_caption
                          save_abs (pix_png pix) st
                   else st)))"

definition pdf_caption :: "pystr \<Rightarrow> pystr" where
  "pdf_caption ptext =
     (let lines = filter (\<lambda>ln. ln \<noteq> []) (map strip_ws (splitlines ptext))
      in py_slice (norm_ws (join_str (u '' '') (py_slice lines 0 4))) 0 300)"

definition pdf_page_step ::
  "env \<Rightarrow> pystr \<Rightarrow> pystr \<Rightarrow> pystr \<Rightarrow> lstate \<Rightarrow> int \<times> pdf_page \<Rightarrow> failure + lstate" where
  "pdf_page_step e assets filename uploads_root st entry =
     (case text_chunks (page_text (snd entry)) of
        Inl f \<Rightarrow> Inl f
      | Inr cs \<Rightarrow>
          (let st1 = st\<lparr>results := results st @
                           map (\<lambda>c. text_meta_chunk c filename (Some (fst entry + 1))) cs\<rparr>
           in if page_images (snd entry) = [] then Inr st1
              else Inr (foldl (pdf_save_image e assets filename uploads_root (fst entry)
                                 (pdf_caption (page_text (snd entry))))
                          st1 (enumerate_from 1 (page_images (snd entry))))))"

definition load_pdf_with_images ::
  "env \<Rightarrow> pystr \<Rightarrow> pystr \<Rightarrow> failure + chunk list \<times> (pystr \<times> byte list) list" where
  "load_pdf_with_images e filepath uploads_root =
     (case pdf_at e filepath of
        None \<Rightarrow> Inl Raises
      | Some doc \<Rightarrow>
          (case assets_dir e filepath uploads_root of
             Inl f \<Rightarrow> Inl f
           | Inr assets \<Rightarrow>
               (case for_each (pdf_page_step e assets (basename filepath) uploads_root)
                       init_state (enumerate_from 0 doc) of
                  Inl f \<Rightarrow> Inl f
                | Inr st \<Rightarrow> Inr (results st, written st))))"

subsection \<open>DOCX\<close>

definition docx_ext :: "pystr \<Rightarrow> pystr" where
  "docx_ext ct =
     (if contains (u ''jpeg'') ct \<or> contains (u ''jpg'') ct then u ''.jpg''
      else if contains (u ''png'') ct then u ''.png''
      else if contains (u ''gif'') ct then u ''.gif''
      else u ''.png'')"

definition docx_image_name :: "env \<Rightarrow> pystr \<Rightarrow> int \<Rightarrow> pystr \<Rightarrow> pystr" where
  "docx_image_name e filename i ext =
     slug e (fst (splitext filename)) @ u ''_fig_'' @ str_int i @ ext"

definition docx_save_image ::
  "env \<Rightarrow> pystr \<Rightarrow> pystr \<Rightarrow> pystr \<Rightarrow> pystr \<Rightarrow> lstate \<Rightarrow> int \<times> docx_part \<Rightarrow> lstate" where
  "docx_save_image e assets filename uploads_root context_snippet st entry =
     (let ct = (case part_content_type (snd entry) of None \<Rightarrow> [] | Some c \<Rightarrow> c);
          save_abs = path_join assets (docx_image_name e filename (fst entry) (docx_ext ct))
      in if can_write e save_abs
         then (case part_blob (snd entry) of
                 None \<Rightarrow> st
               | Some blob \<Rightarrow>
                   emit_image e uploads_root filename None context_snippet save_abs blob st)
         else st)"

definition docx_find_images :: "docx_doc \<Rightarrow> docx_part list" where
  "docx_find_images doc =
     (let image_parts = (case docx_related doc of None \<Rightarrow> [] | Some ps \<Rightarrow> ps)
      in if image_parts = []
         then (case docx_image_parts doc of None \<Rightarrow> [] | Some ps \<Rightarrow> ps)
         else image_parts)"

definition load_docx_with_images ::
  "env \<Rightarrow> pystr \<Rightarrow> pystr \<Rightarrow> failure + chunk list \<times> (pystr \<times> byte list) list" where
  "load_docx_with_images e filepath uploads_root =
     (case docx_at e filepath of
        None \<Rightarrow> Inl Raises
      | Some doc \<Rightarrow>
          (case assets_dir e filepath uploads_root of
             Inl f \<Rightarrow> Inl f
           | Inr assets \<Rightarrow>
               (let filename = basename filepath;
                    paragraphs = filter (\<lambda>p. p \<noteq> []) (map strip_ws (docx_paragraphs doc))
                in case text_chunks (join_str [10] paragraphs) of
                     Inl f \<Rightarrow> Inl f
                   | Inr cs \<Rightarrow>
                       (let st1 = init_state\<lparr>results := map (\<lambda>c. text_meta_chunk c filename None) cs\<rparr>;
                            context_snippet =
                              py_slice (norm_ws (join_str (u '' '') (py_slice paragraphs 0 6))) 0 300;
                            st = foldl (docx_save_image e assets filename uploads_root context_snippet)
                                   st1 (enumerate_from 1 (docx_find_images doc))
                        in Inr (results st, written st)))))"

subsection \<open>PPTX\<close>

text \<open>
  The text of one shape, as the first loop over \<^verbatim>\<open>slide.shapes\<close> collects it; reading
  \<^verbatim>\<open>shape.text\<close> of a shape that says it has a text frame and has no such attribute raises.
\<close>

definition collect_text :: "pystr list \<Rightarrow> shape \<Rightarrow> failure + pystr list" where
  "collect_text slide_texts sh =
     (if shape_has_text_frame sh = Some True
      then (case shape_text sh of
              None \<Rightarrow> Inl Raises
            | Some t \<Rightarrow> Inr (if strip_ws t \<noteq> [] then slide_texts @ [strip_ws t] else slide_texts))
      else (case shape_text sh of
              None \<Rightarrow> Inr slide_texts
            | Some t \<Rightarrow> Inr (if strip_ws t \<noteq> [] then slide_texts @ [strip_ws t] else slide_texts)))"

definition pptx_image_name :: "env \<Rightarrow> pystr \<Rightarrow> int \<Rightarrow> int \<Rightarrow> pystr \<Rightarrow> pystr" where
  "pptx_image_name e filename sidx fig ext =
     slug e (fst (splitext filename)) @ u ''_s'' @ str_int sidx @ u ''_'' @ str_int fig @ ext"

definition pptx_caption :: "shape \<Rightarrow> pystr \<Rightarrow> pystr" where
  "pptx_caption sh caption_ctx =
     (let alt = (case shape_alt_text sh of None \<Rightarrow> [] | Some a \<Rightarrow> strip_ws a)
      in or_str (norm_ws alt) caption_ctx)"

definition pptx_save_image ::
  "env \<Rightarrow> pystr \<Rightarrow> pystr \<Rightarrow> pystr \<Rightarrow> int \<Rightarrow> pystr \<Rightarrow> lstate \<Rightarrow> shape \<Rightarrow> lstate" where
  "pptx_save_image e assets filename uploads_root sidx caption_ctx st sh =
     (case shape_type sh of
        None \<Rightarrow> st
      | Some kind \<Rightarrow>
          if kind \<noteq> PICTURE then st
          else (case shape_image sh of
                  None \<Rightarrow> st
                | Some img \<Rightarrow>
                    (case image_filename img of
                       None \<Rightarrow> st
                     | Some name \<Rightarrow>
                         (let ext = or_str (snd (splitext name)) (u ''.png'');
                              save_abs = path_join assets
                                (pptx_image_name e filename sidx (figure_no st) ext)
                          in if can_write e save_abs
                             then emit_image e uploads_root filename (Some sidx)
                                    (pptx_caption sh caption_ctx) save_abs (image_blob img) st
                             else st))))"

definition pptx_slide_step ::
  "env \<Rightarrow> pystr \<Rightarrow> pystr \<Rightarrow> pystr \<Rightarrow> lstate \<Rightarrow> int \<times> shape list \<Rightarrow> failure + lstate" where
  "pptx_slide_step e assets filename uploads_root st entry =
     (case for_each collect_text [] (snd entry) of
        Inl f \<Rightarrow> Inl f
      | Inr slide_texts \<Rightarrow>
          (case text_chunks (join_str [10] slide_texts) of
             Inl f \<Rightarrow> Inl f
           | Inr cs \<Rightarrow>
               (let st1 = st\<lparr>results := results st @
                                map (\<lambda>c. text_meta_chunk c filename (Some (fst entry))) cs\<rparr>;
                    caption_ctx = py_slice (norm_ws (join_str [10] slide_texts)) 0 300
                in Inr (foldl (pptx_save_image e assets filename uploads_root (fst entry) caption_ctx)
                          st1 (snd entry)))))"

definition load_pptx_with_images ::
  "env \<Rightarrow> pystr \<Rightarrow> pystr \<Rightarrow> failure + chunk list \<times> (pystr \<times> byte list) list" where
  "load_pptx_with_images e filepath uploads_root =
     (case pptx_at e filepath of
        None \<Rightarrow> Inl Raises
      | Some prs \<Rightarrow>
          (case assets_dir e filepath uploads_root of
             Inl f \<Rightarrow> Inl f
           | Inr assets \<Rightarrow>
               (case for_each (pptx_slide_step e assets (basename filepath) uploads_root)
                       init_state (enumerate_from 1 prs) of
                  Inl f \<Rightarrow> Inl f
                | Inr st \<Rightarrow> Inr (results st, written st))))"

subsection \<open>Plain text\<close>

text \<open>
  Decoding one character of UTF-8 from a lead byte and the bytes behind it, as CPython's
  decoder does: the code point, or \<open>None\<close> for an error, and the input that remains. An
  invalid lead byte is an error of one byte; an invalid continuation byte ends the error
  before it; a sequence cut off by the end of the input is an error up to the end.
\<close>

definition is_cont :: "byte \<Rightarrow> bool" where
  "is_cont b \<longleftrightarrow> 128 \<le> unat b \<and> unat b < 192"

definition utf8_step :: "byte \<Rightarrow> byte list \<Rightarrow> nat option \<times> byte list" where
  "utf8_step b0 rest =
     (let ch = unat b0 in
      if ch < 128 then (Some ch, rest)
      else if ch < 194 then (None, rest)
      else if ch < 224 then
        (case rest of
           [] \<Rightarrow> (None, [])
         | b1 # r1 \<Rightarrow>
             if \<not> is_cont b1 then (None, rest)
             else (Some (ch * 64 + unat b1 - 12416), r1))
      else if ch < 240 then
        (case rest of
           [] \<Rightarrow> (None, [])
         | b1 # r1 \<Rightarrow>
             if \<not> is_cont b1 \<or> (if unat b1 < 160 then ch = 224 else ch = 237) then (None, rest)
             else (case r1 of
                     [] \<Rightarrow> (None, [])
                   | b2 # r2 \<Rightarrow>
                       if \<not> is_cont b2 then (None, r1)
                       else (Some (ch * 4096 + unat b1 * 64 + unat b2 - 925824), r2)))
      else if ch < 245 then
        (case rest of
           [] \<Rightarrow> (None, [])
         | b1 # r1 \<Rightarrow>
             if \<not> is_cont b1 \<or> (if unat b1 < 144 then ch = 240 else ch = 244) then (None, rest)
             else (case r1 of
                     [] \<Rightarrow> (None, [])
                   | b2 # r2 \<Rightarrow>
                       if \<not> is_cont b2 then (None, r1)
                       else (case r2 of
                               [] \<Rightarrow> (None, [])
                             | b3 # r3 \<Rightarrow>
                                 if \<not> is_cont b3 then (None, r2)
                                 else (Some (ch * 262144 + unat b1 * 4096 + unat b2 * 64 +
                                             unat b3 - 63447168), r3))))
      else (None, rest))"

lemma utf8_step_length: "length (snd (utf8_step b r)) \<le> length r"
  by (auto simp: utf8_step_def Let_def split: list.splits)

text \<open>
  \<^verbatim>\<open>bytes.decode("utf-8", errors)\<close> for the error handlers \<^verbatim>\<open>strict\<close> (an error raises:
  \<open>None\<close>) and \<^verbatim>\<open>ignore\<close> (the bytes of an error are dropped and decoding goes on behind
  them).
\<close>

datatype errors_mode = Strict | Ignore

function utf8_decode :: "errors_mode \<Rightarrow> byte list \<Rightarrow> pystr option" where
  "utf8_decode mode [] = Some []"
| "utf8_decode mode (b # bs) =
     (case fst (utf8_step b bs) of
        Some c \<Rightarrow> map_option (\<lambda>s. c # s) (utf8_decode mode (snd (utf8_step b bs)))
      | None \<Rightarrow> if mode = Ignore then utf8_decode mode (snd (utf8_step b bs)) else None)"
  by pat_completeness auto
termination
  by (relation "measure (\<lambda>(mode, bs). length bs)") (auto simp: utf8_step_length le_imp_less_Suc)

text \<open>Reading in text mode translates \<open>\r\n\<close> and \<open>\r\<close> to \<open>\n\<close>.\<close>

fun universal_newlines :: "pystr \<Rightarrow> pystr" where
  "universal_newlines [] = []"
| "universal_newlines [c] = [if c = 13 then 10 else c]"
| "universal_newlines (c # d # s) =
     (if c = 13 \<and> d = 10 then 10 # universal_newlines s
      else if c = 13 then 10 # universal_newlines (d # s)
      else c # universal_newlines (d # s))"

text \<open>
  \<^verbatim>\<open>open(filepath, "r", encoding="utf-8", errors="ignore").read()\<close> inside the \<^verbatim>\<open>try\<close>: a
  file that cannot be opened or read gives the empty text.
\<close>

definition read_text :: "env \<Rightarrow> pystr \<Rightarrow> pystr" where
  "read_text e filepath =
     (case bytes_at e filepath of
        None \<Rightarrow> []
      | Some bs \<Rightarrow>
          (case utf8_decode Ignore bs of None \<Rightarrow> [] | Some s \<Rightarrow> universal_newlines s))"

definition load_plain ::
  "env \<Rightarrow> pystr \<Rightarrow> pystr \<Rightarrow> failure + chunk list \<times> (pystr \<times> byte list) list" where
  "load_plain e filepath uploads_root =
     (case text_chunks (read_text e filepath) of
        Inl f \<Rightarrow> Inl f
      | Inr cs \<Rightarrow> Inr (map (\<lambda>c. text_meta_chunk c (basename filepath) None) cs, []))"

subsection \<open>The dispatcher\<close>

definition load_and_split_with_images ::
  "env \<Rightarrow> pystr \<Rightarrow> pystr \<Rightarrow> failure + chunk list \<times> (pystr \<times> byte list) list" where
  "load_and_split_with_images e filepath uploads_root =
     (let ext = lower (snd (splitext filepath))
      in if ext = u ''.pdf'' then load_pdf_with_images e filepath uploads_root
         else if ext = u ''.docx'' then load_docx_with_images e filepath uploads_root
         else if ext = u ''.pptx'' then load_pptx_with_images e filepath uploads_root
         else if ext = u ''.txt'' \<or> ext = u ''.csv'' \<or> ext = u ''.md''
         then load_plain e filepath uploads_root
         else load_plain e filepath uploads_root)"

section \<open>What the claims speak of\<close>

text \<open>An image chunk is one whose metadata has the type \<^verbatim>\<open>"image"\<close>; a text chunk, \<^verbatim>\<open>"text"\<close>.\<close>

definition is_image :: "chunk \<Rightarrow> bool" where
  "is_image c \<longleftrightarrow> snd c ''type'' = Some (PStr (u ''image''))"

definition is_text :: "chunk \<Rightarrow> bool" where
  "is_text c \<longleftrightarrow> snd c ''type'' = Some (PStr (u ''text''))"

text \<open>
  The schema: a text chunk has none of the keys \<^verbatim>\<open>image_path\<close>, \<^verbatim>\<open>figure_no\<close>, \<^verbatim>\<open>caption\<close>; an
  image chunk has all three, with a string for the path, an integer for the number and a
  string (maybe empty) for the caption. Every chunk is one or the other.
\<close>

definition is_PStr :: "pyval option \<Rightarrow> bool" where
  "is_PStr v = (case v of Some (PStr s) \<Rightarrow> True | _ \<Rightarrow> False)"

definition is_PInt :: "pyval option \<Rightarrow> bool" where
  "is_PInt v = (case v of Some (PInt i) \<Rightarrow> True | _ \<Rightarrow> False)"

definition schema_ok :: "chunk \<Rightarrow> bool" where
  "schema_ok c \<longleftrightarrow>
     (is_text c \<and> ''image_path'' \<notin> dom (snd c) \<and> ''figure_no'' \<notin> dom (snd c) \<and>
        ''caption'' \<notin> dom (snd c)) \<or>
     (is_image c \<and> is_PStr (snd c ''image_path'') \<and> is_PInt (snd c ''figure_no'') \<and>
        is_PStr (snd c ''caption''))"

text \<open>The figure numbers and image paths of the image chunks of a result, in order.\<close>

definition figure_nos :: "chunk list \<Rightarrow> pyval option list" where
  "figure_nos res = map (\<lambda>c. snd c ''figure_no'') (filter is_image res)"

definition image_paths :: "chunk list \<Rightarrow> pyval option list" where
  "image_paths res = map (\<lambda>c. snd c ''image_path'') (filter is_image res)"

text \<open>The path an image chunk records for a file written at \<open>save_abs\<close>.\<close>

definition recorded_path :: "env \<Rightarrow> pystr \<Rightarrow> pystr \<Rightarrow> pyval option" where
  "recorded_path e uploads_root save_abs =
     Some (PStr (backslash_to_slash (relpath (getcwd e) save_abs uploads_root)))"

text \<open>
  What holds of the state of a loader at every point of a run: every chunk fits the
  schema; the counter is one more than the number of files written; the image chunks
  carry the numbers \<open>1, 2, ...\<close> and the paths of the files written, in order; and every
  file written is one the world let the call write.
\<close>

definition loader_inv :: "env \<Rightarrow> pystr \<Rightarrow> lstate \<Rightarrow> bool" where
  "loader_inv e uploads_root st \<longleftrightarrow>
     list_all schema_ok (results st) \<and>
     figure_no st = 1 + int (length (written st)) \<and>
     figure_nos (results st) = map (\<lambda>k. Some (PInt (1 + int k))) [0..<length (written st)] \<and>
     image_paths (results st) = map (\<lambda>w. recorded_path e uploads_root (fst w)) (written st) \<and>
     list_all (\<lambda>w. can_write e (fst w)) (written st)"

text \<open>
  One attempt to save an image takes the state \<open>st\<close> to \<open>st'\<close> in one of two ways: nothing
  changes, or one file is written and one image chunk for it is appended, with the current
  figure number and the path of that file, and the counter advances by one.
\<close>

definition attempt_ok :: "env \<Rightarrow> pystr \<Rightarrow> lstate \<Rightarrow> lstate \<Rightarrow> bool" where
  "attempt_ok e uploads_root st st' \<longleftrightarrow>
     st' = st \<or>
     (\<exists>c p d. can_write e p \<and> is_image c \<and> schema_ok c \<and>
        snd c ''figure_no'' = Some (PInt (figure_no st)) \<and>
        snd c ''image_path'' = recorded_path e uploads_root p \<and>
        st' = st\<lparr>results := results st @ [c], figure_no := figure_no st + 1,
                   written := written st @ [(p, d)]\<rparr>)"

text \<open>A chunk whose \<^verbatim>\<open>page\<close> entry is a number from 1 on; one whose \<^verbatim>\<open>page\<close> entry is \<^verbatim>\<open>None\<close>.\<close>

definition has_page_no :: "chunk \<Rightarrow> bool" where
  "has_page_no c = (case snd c ''page'' of Some (PInt n) \<Rightarrow> 1 \<le> n | _ \<Rightarrow> False)"

definition page_is_none :: "chunk \<Rightarrow> bool" where
  "page_is_none c \<longleftrightarrow> snd c ''page'' = Some PNone"

section \<open>A small world for concrete runs\<close>

text \<open>
  Three documents and two files in a working directory \<open>/srv/app\<close>, with every directory
  and file writable.

  \<open>doc.pdf\<close>: a page of text, then a page with three images, the first of which cannot be
  decoded. \<open>memo.docx\<close>: two paragraphs and one JPEG part. \<open>deck.pptx\<close>: one slide with a title
  and two pictures, the first with the alt-text \<open>a  b\<close> (two spaces), the second without
  alt-text. \<open>notes.txt\<close> holds the bytes of \<open>hi\<close>; \<open>blob.xyz\<close> holds the byte \<open>0xFF\<close> and
  the letter \<open>a\<close>.
\<close>

definition demo_pdf :: pdf_doc where
  "demo_pdf =
     [\<lparr>page_text = u ''Intro'', page_images = []\<rparr>,
      \<lparr>page_text = u ''Fig  page'',
       page_images =
         [\<lparr>img_pixmap = None, img_rgb = None\<rparr>,
          \<lparr>img_pixmap = Some \<lparr>pix_n = 3, pix_png = [1]\<rparr>, img_rgb = None\<rparr>,
          \<lparr>img_pixmap = Some \<lparr>pix_n = 5, pix_png = [2]\<rparr>,
           img_rgb = Some \<lparr>pix_n = 3, pix_png = [3]\<rparr>\<rparr>]\<rparr>]"

definition demo_docx :: docx_doc where
  "demo_docx =
     \<lparr>docx_paragraphs = [u ''Hello  world'', u '' ''],
      docx_related = None,
      docx_image_parts =
        Some [\<lparr>part_content_type = Some (u ''image/jpeg''), part_blob = Some [9]\<rparr>]\<rparr>"

definition demo_pptx :: pptx_doc where
  "demo_pptx =
     [[\<lparr>shape_has_text_frame = Some True, shape_text = Some (u ''Title''),
        shape_type = Some OTHER_SHAPE, shape_image = None, shape_alt_text = None\<rparr>,
       \<lparr>shape_has_text_frame = Some False, shape_text = None,
        shape_type = Some PICTURE,
        shape_image = Some \<lparr>image_filename = Some (u ''image.png''), image_blob = [1]\<rparr>,
        shape_alt_text = Some (u ''a  b'')\<rparr>,
       \<lparr>shape_has_text_frame = Some False, shape_text = None,
        shape_type = Some PICTURE,
        shape_image = Some \<lparr>image_filename = Some (u ''image.jpg''), image_blob = [2]\<rparr>,
        shape_alt_text = None\<rparr>]]"

definition demo_env :: env where
  "demo_env =
     \<lparr>uni_alnum = (\<lambda>c. False),
      getcwd = u ''/srv/app'',
      can_mkdir = (\<lambda>p. True),
      can_write = (\<lambda>p. True),
      pdf_at = (\<lambda>p. if p = u ''doc.pdf'' then Some demo_pdf else None),
      docx_at = (\<lambda>p. if p = u ''memo.docx'' then Some demo_docx else None),
      pptx_at = (\<lambda>p. if p = u ''deck.pptx'' then Some demo_pptx else None),
      bytes_at = (\<lambda>p. if p = u ''notes.txt'' then Some [104, 105]
                       else if p = u ''blob.xyz'' then Some [255, 97] else None)\<rparr>"

text \<open>What the three loaders return in that world for an uploads root \<open>uploads\<close>, and the files they write.\<close>

definition demo_pdf_result :: "chunk list \<times> (pystr \<times> byte list) list" where
  "demo_pdf_result =
     ([text_meta_chunk (u ''Intro'') (u ''doc.pdf'') (Some 1),
       text_meta_chunk (u ''Fig page'') (u ''doc.pdf'') (Some 2),
       image_meta_chunk (u ''Fig page'') (u ''doc_assets/doc_p2_2.png'') (u ''doc.pdf'') (Some 2) 1
         (Some (u ''Fig page'')),
       image_meta_chunk (u ''Fig page'') (u ''doc_assets/doc_p2_3.png'') (u ''doc.pdf'') (Some 2) 2
         (Some (u ''Fig page''))],
      [(u ''uploads/doc_assets/doc_p2_2.png'', [1]),
       (u ''uploads/doc_assets/doc_p2_3.png'', [3])])"

definition demo_docx_result :: "chunk list \<times> (pystr \<times> byte list) list" where
  "demo_docx_result =
     ([text_meta_chunk (u ''Hello world'') (u ''memo.docx'') None,
       image_meta_chunk (u ''Hello world'') (u ''memo_assets/memo_fig_1.jpg'') (u ''memo.docx'') None 1
         (Some (u ''Hello world''))],
      [(u ''uploads/memo_assets/memo_fig_1.jpg'', [9])])"

definition demo_pptx_result :: "chunk list \<times> (pystr \<times> byte list) list" where
  "demo_pptx_result =
     ([text_meta_chunk (u ''Title'') (u ''deck.pptx'') (Some 1),
       image_meta_chunk (u ''a b'') (u ''deck_assets/deck_s1_1.png'') (u ''deck.pptx'') (Some 1) 1
         (Some (u ''a b'')),
       image_meta_chunk (u ''Title'') (u ''deck_assets/deck_s1_2.jpg'') (u ''deck.pptx'') (Some 1) 2
         (Some (u ''Title''))],
      [(u ''uploads/deck_assets/deck_s1_1.png'', [1]),
       (u ''uploads/deck_assets/deck_s1_2.jpg'', [2])])"

section \<open>The chunker returns, and what it returns\<close>

lemma slice_nonneg:
  "0 \<le> a \<Longrightarrow> 0 \<le> b \<Longrightarrow> py_slice xs a b = take (nat b - nat a) (drop (nat a) xs)"
  by (auto simp: py_slice_def slice_bound_def Let_def min_def nat_diff_distrib')

lemma chunk_count_Suc:
  assumes "0 < L" "0 < s"
  shows "chunk_count L s = Suc (chunk_count (L - s) s)"
proof -
  have d: "(m + s) div s = Suc (m div s)" for m
    using assms(2) div_add_self2[of s m] by simp
  show ?thesis
  proof (cases "s \<le> L")
    case True
    have e: "L + s - 1 = (L - s + s - 1) + s" using True assms by linarith
    show ?thesis unfolding chunk_count_def by (subst e) (rule d)
  next
    case False
    have e: "L + s - 1 = (L - 1) + s" using assms by linarith
    have z: "(L - 1) div s = 0" "(L - s + s - 1) div s = 0" using False assms by auto
    show ?thesis unfolding chunk_count_def by (subst e) (simp only: d z)
  qed
qed

lemma chunk_loop_returns:
  assumes "1 \<le> step" 
  shows "chunk_loop t sz step i acc =
     Some (acc @ map (\<lambda>k. py_slice t (i + int k * step) (i + int k * step + sz))
                  [0..<chunk_count (nat (int (length t) - i)) (nat step)])"
proof (induction "nat (int (length t) - i)" arbitrary: i acc rule: less_induct)
  case less
  show ?case
  proof (cases "i < int (length t)")
    case False
    then have "chunk_count (nat (int (length t) - i)) (nat step) = 0"
      using assms by (simp add: chunk_count_def)
    with False show ?thesis by (subst chunk_loop.simps) simp
  next
    case True
    let ?n = "chunk_count (nat (int (length t) - i)) (nat step)"
    let ?m = "chunk_count (nat (int (length t) - (i + step))) (nat step)"
    have n: "?n = Suc ?m"
    proof -
      have "nat (int (length t) - i) - nat step = nat (int (length t) - (i + step))"
        using True assms by linarith
      then show ?thesis
        using True assms chunk_count_Suc[of "nat (int (length t) - i)" "nat step"] by simp
    qed
    have "chunk_loop t sz step i acc = chunk_loop t sz step (i + step) (acc @ [py_slice t i (i + sz)])"
      using True by (subst chunk_loop.simps) simp
    also have "\<dots> = Some ((acc @ [py_slice t i (i + sz)]) @ map (\<lambda>k. py_slice t (i + step + int k * step) (i + step + int k * step + sz)) [0..<?m])"
      using True assms by (intro less) simp
    also have "\<dots> = Some (acc @ map (\<lambda>k. py_slice t (i + int k * step) (i + int k * step + sz)) [0..<?n])"
    proof -
      have "map (\<lambda>k. py_slice t (i + int k * step) (i + int k * step + sz)) [0..<Suc ?m]
          = py_slice t i (i + sz) # map (\<lambda>k. py_slice t (i + step + int k * step) (i + step + int k * step + sz)) [0..<?m]"
        unfolding map_upt_Suc by (simp add: distrib_right add.assoc)
      then show ?thesis unfolding n by simp
    qed
    finally show ?thesis .
  qed
qed


subsection \<open>Normalisation collapses whitespace runs and trims\<close>

lemma isspace_32: "isspace 32" by (simp add: isspace_def)

lemma u_space: "u '' '' = [32]" by (simp add: u_def)

lemma rstrip_Cons:
  "rstrip (x # z) = (if isspace x \<and> rstrip z = [] then [] else x # rstrip z)"
  by (auto simp: rstrip_def dropWhile_append)

lemma rstrip_append_nonspace:
  "\<forall>x\<in>set w. \<not> isspace x \<Longrightarrow> rstrip (w @ z) = w @ rstrip z"
  by (induction w) (auto simp: rstrip_Cons)

lemma collapse_nonspace_prefix:
  "\<forall>x\<in>set w. \<not> isspace x \<Longrightarrow> collapse_runs (w @ z) = w @ collapse_runs z"
  by (induction w) auto

lemma dropWhile_space_Cons: "dropWhile isspace s = c # r \<Longrightarrow> \<not> isspace c"
  using hd_dropWhile[of isspace s] by auto

lemma dropWhile_collapse:
  "dropWhile isspace (collapse_runs s) = collapse_runs (dropWhile isspace s)"
proof (cases s)
  case Nil then show ?thesis by simp
next
  case (Cons c cs)
  have fx: "dropWhile isspace (collapse_runs (dropWhile isspace t)) = collapse_runs (dropWhile isspace t)" for t
  proof (cases "dropWhile isspace t")
    case Nil show ?thesis unfolding Nil by simp
  next
    case (Cons d ds)
    then have "\<not> isspace d" by (rule dropWhile_space_Cons)
    with Cons show ?thesis by simp
  qed
  show ?thesis using Cons fx[of cs] by (simp add: isspace_32)
qed

lemma split_ws_hd_nonempty: "split_ws s = w # ws \<Longrightarrow> w \<noteq> []"
  by (subst (asm) split_ws.simps) (auto split: list.splits dest: dropWhile_space_Cons)

lemma join_Cons: "join_str sep (w # ws) = (if ws = [] then w else w @ sep @ join_str sep ws)"
  by (cases ws) auto

lemma join_split_empty: "join_str sep (split_ws s) = [] \<longleftrightarrow> split_ws s = []"
  by (cases "split_ws s") (auto simp: join_Cons dest: split_ws_hd_nonempty)


lemma norm_ws_rstrip:
  "norm_ws s = rstrip (collapse_runs (dropWhile isspace s))"
proof (induction s rule: split_ws.induct)
  case (1 s)
  show ?case
  proof (cases "dropWhile isspace s")
    case Nil
    have "split_ws s = []" by (subst split_ws.simps) (simp only: Nil list.case)
    then show ?thesis unfolding Nil by (simp add: norm_ws_def rstrip_def)
  next
    case (Cons c r)
    let ?w = "takeWhile (\<lambda>x. \<not> isspace x) (c # r)"
    let ?r = "dropWhile (\<lambda>x. \<not> isspace x) (c # r)"
    let ?Y = "collapse_runs (dropWhile isspace ?r)"
    have sw: "split_ws s = ?w # split_ws ?r"
      by (subst split_ws.simps) (simp only: Cons list.case)
    have IH: "join_str [32] (split_ws ?r) = rstrip ?Y"
      using 1[OF Cons] by (simp add: norm_ws_def u_space)
    have w: "\<forall>x\<in>set ?w. \<not> isspace x"
      by (auto dest: set_takeWhileD)
    have "c # r = ?w @ ?r" by simp
    then have "collapse_runs (c # r) = ?w @ collapse_runs ?r"
      using collapse_nonspace_prefix[OF w, of ?r] by simp
    then have rhs: "rstrip (collapse_runs (c # r)) = ?w @ rstrip (collapse_runs ?r)"
      using rstrip_append_nonspace[OF w] by simp
    have "join_str [32] (?w # split_ws ?r) = ?w @ rstrip (collapse_runs ?r)"
    proof (cases ?r)
      case Nil
      have "split_ws [] = []" by (subst split_ws.simps) simp
      then show ?thesis unfolding Nil by (simp add: rstrip_def)
    next
      case (Cons d ds)
      have "isspace d" using hd_dropWhile[of "\<lambda>x. \<not> isspace x" "c # r"] Cons by auto
      then have "collapse_runs ?r = 32 # ?Y" unfolding Cons by simp
      then have "rstrip (collapse_runs ?r) = (if rstrip ?Y = [] then [] else 32 # rstrip ?Y)"
        by (simp add: rstrip_Cons isspace_32)
      moreover have "rstrip ?Y = [] \<longleftrightarrow> split_ws ?r = []"
        using IH join_split_empty[of "[32]" ?r] by simp
      ultimately show ?thesis using IH by (simp add: join_Cons)
    qed
    then show ?thesis unfolding Cons using sw rhs by (simp add: norm_ws_def u_space)
  qed
qed


subsection \<open>The chunks in closed form\<close>

lemma norm_ws_collapse_strip: "norm_ws s = strip_ws (collapse_runs s)"
  by (simp add: norm_ws_rstrip strip_ws_def dropWhile_collapse)

lemma chunk_count_0: "chunk_count 0 s = 0"
  by (cases s) (simp_all add: chunk_count_def)

lemma chunk_count_covers:
  assumes "0 < s" shows "L \<le> chunk_count L s * s"
proof -
  have "L + s - 1 = (L + s - 1) div s * s + (L + s - 1) mod s" by simp
  moreover have "(L + s - 1) mod s \<le> s - 1" using assms
    by (metis Suc_pred' less_Suc_eq_le mod_less_divisor)
  ultimately have "L + s - 1 \<le> (L + s - 1) div s * s + (s - 1)" by linarith
  then show ?thesis using assms by (simp add: chunk_count_def)
qed

lemma chunk_count_last_start:
  assumes "0 < s" "0 < L" shows "(chunk_count L s - 1) * s < L"
proof -
  let ?n = "chunk_count L s"
  have "(L + s - 1) div s * s \<le> L + s - 1" by (rule div_times_less_eq_dividend)
  then have "?n * s \<le> L + s - 1" by (simp only: chunk_count_def)
  then have lt: "?n * s < L + s" using assms by linarith
  have "(?n - 1) * s + s = ?n * s \<or> ?n = 0"
    by (cases ?n) auto
  then show ?thesis using lt assms by auto
qed

lemma chunk_count_le:
  assumes "0 < s" shows "chunk_count L s \<le> L"
proof (cases "L = 0")
  case True then show ?thesis by (simp add: chunk_count_0)
next
  case False
  let ?n = "chunk_count L s"
  have a: "?n - 1 \<le> (?n - 1) * s" using assms by simp
  have b: "(?n - 1) * s < L" using chunk_count_last_start[OF assms, of L] False by simp
  from a b have "?n - 1 < L" by (rule le_less_trans)
  then show ?thesis by linarith
qed

lemma chunk_text_eq:
  "chunk_text txt sz ov =
     Some (map (\<lambda>k. py_slice (norm_ws txt) (int k * max (sz - ov) 1) (int k * max (sz - ov) 1 + sz))
            [0..<chunk_count (length (norm_ws txt)) (nat (max (sz - ov) 1))])"
proof (cases "norm_ws txt = []")
  case True
  then show ?thesis by (simp add: chunk_text_def chunk_count_0 Let_def)
next
  case False
  have "1 \<le> max (sz - ov) 1" by simp
  from chunk_loop_returns[OF this, of "norm_ws txt" sz 0 "[]"] False
  show ?thesis by (simp add: chunk_text_def Let_def)
qed

lemma chunk_text_windows:
  assumes "0 < S" "0 \<le> ov" "ov < S"
  shows "chunk_text txt S ov = Some (windows (norm_ws txt) (nat S) (nat (S - ov)))"
proof -
  have m: "max (S - ov) 1 = S - ov" using assms by simp
  have "py_slice t (int k * (S - ov)) (int k * (S - ov) + S) = take (nat S) (drop (k * nat (S - ov)) t)" for k and t :: pystr
  proof -
    have a: "0 \<le> int k * (S - ov)" using assms by simp
    have n: "nat (int k * (S - ov)) = k * nat (S - ov)" using assms by (simp add: nat_mult_distrib)
    have "nat (int k * (S - ov) + S) - nat (int k * (S - ov)) = nat S"
      using a assms by linarith
    then show ?thesis using slice_nonneg[of "int k * (S - ov)" "int k * (S - ov) + S" t] a assms n
      by simp
  qed
  then show ?thesis unfolding chunk_text_eq m windows_def by simp
qed


subsection \<open>Windows: the last one, reversing the overlap, the shared characters\<close>

lemma chunk_count_pos: "0 < s \<Longrightarrow> 0 < L \<Longrightarrow> 0 < chunk_count L s"
  using chunk_count_covers[of s L] by (cases "chunk_count L s") auto

lemma chunk_count_start:
  assumes "k < chunk_count L s" shows "k * s < L"
proof -
  have s: "0 < s" using assms by (cases s) (simp_all add: chunk_count_def)
  have L: "0 < L" using assms by (cases L) (simp_all add: chunk_count_0)
  have "k * s \<le> (chunk_count L s - 1) * s" using assms by (intro mult_le_mono1) simp
  with chunk_count_last_start[OF s L] show ?thesis by linarith
qed

lemma windows_nonempty: "0 < step \<Longrightarrow> t \<noteq> [] \<Longrightarrow> windows t S step \<noteq> []"
  using chunk_count_pos[of step "length t"] by (auto simp: windows_def)

lemma windows_length: "length (windows t S step) = chunk_count (length t) step"
  by (simp add: windows_def)

lemma windows_nth:
  "k < chunk_count (length t) step \<Longrightarrow> windows t S step ! k = take S (drop (k * step) t)"
  by (simp add: windows_def)

lemma windows_last:
  assumes "0 < step" "step \<le> S" "t \<noteq> []"
  shows "last (windows t S step) = drop ((chunk_count (length t) step - 1) * step) t"
proof -
  let ?n = "chunk_count (length t) step"
  have n: "0 < ?n" using windows_nonempty[OF assms(1,3), of S] by (simp add: windows_def)
  have "last (windows t S step) = windows t S step ! (?n - 1)"
    using n by (simp add: last_conv_nth windows_length windows_nonempty[OF assms(1,3)])
  also have "\<dots> = take S (drop ((?n - 1) * step) t)" using n by (simp add: windows_nth)
  also have "\<dots> = drop ((?n - 1) * step) t"
  proof -
    have "(?n - 1) * step + step = ?n * step" using n by (cases ?n) auto
    then have "length t \<le> (?n - 1) * step + S"
      using chunk_count_covers[OF assms(1), of "length t"] assms(2) by linarith
    then show ?thesis by simp
  qed
  finally show ?thesis .
qed

lemma rebuild_snoc: "cs \<noteq> [] \<Longrightarrow> rebuild ov (cs @ [c]) = rebuild ov cs @ drop ov c"
  by (cases cs) (auto simp: rebuild_def)

lemma rebuild_prefix:
  assumes "ov + step = S"
  shows "rebuild ov (map (\<lambda>k. take S (drop (k * step) t)) [0..<Suc m]) = take (m * step + S) t"
proof (induction m)
  case 0
  then show ?case by (simp add: rebuild_def)
next
  case (Suc m)
  have "rebuild ov (map (\<lambda>k. take S (drop (k * step) t)) [0..<Suc (Suc m)])
      = take (m * step + S) t @ drop ov (take S (drop (Suc m * step) t))"
    using Suc rebuild_snoc[of "map (\<lambda>k. take S (drop (k * step) t)) [0..<Suc m]" ov] by simp
  also have "drop ov (take S (drop (Suc m * step) t)) = take step (drop (m * step + S) t)"
  proof -
    have a: "ov + Suc m * step = m * step + S" using assms by simp
    have b: "S - ov = step" using assms by simp
    have "drop ov (take S (drop (Suc m * step) t)) = take (S - ov) (drop (ov + Suc m * step) t)"
      by (simp only: drop_take drop_drop)
    then show ?thesis by (simp only: a b)
  qed
  also have "take (m * step + S) t @ take step (drop (m * step + S) t) = take (Suc m * step + S) t"
  proof -
    have "take (m * step + S + step) t = take (m * step + S) t @ take step (drop (m * step + S) t)"
      by (rule take_add)
    moreover have "m * step + S + step = Suc m * step + S" by simp
    ultimately show ?thesis by (simp only:)
  qed
  finally show ?case .
qed

lemma rebuild_windows:
  assumes "ov + step = S" "0 < step"
  shows "rebuild ov (windows t S step) = t"
proof (cases "t = []")
  case True
  then show ?thesis by (simp add: windows_def chunk_count_0 rebuild_def)
next
  case False
  let ?n = "chunk_count (length t) step"
  have n: "0 < ?n" using windows_nonempty[OF assms(2) False, of S] by (simp add: windows_def)
  then obtain m where m: "?n = Suc m" by (cases ?n) auto
  have "length t \<le> Suc m * step" using chunk_count_covers[OF assms(2), of "length t"] m by simp
  then have "length t \<le> m * step + S" using assms by simp
  then show ?thesis unfolding windows_def m rebuild_prefix[OF assms(1)] by simp
qed

lemma windows_overlap:
  assumes "ov + step = S" "Suc k < chunk_count (length t) step"
    and "ov \<le> length (windows t S step ! Suc k)"
  shows "boundary_overlap ov (windows t S step ! k) (windows t S step ! Suc k)"
proof -
  have k: "k < chunk_count (length t) step" using assms(2) by simp
  have "Suc k * step < length t" using assms(2) by (rule chunk_count_start)
  moreover have "ov \<le> length t - Suc k * step"
    using assms(3) assms(2) by (simp add: windows_nth)
  ultimately have len: "Suc k * step + ov \<le> length t" by linarith
  then have full: "k * step + S \<le> length t" using assms(1) by simp
  then have la: "length (take S (drop (k * step) t)) = S" by simp
  have "drop (S - ov) (take S (drop (k * step) t)) = take ov (drop (k * step + (S - ov)) t)"
    using assms(1) by (simp add: drop_take add.commute)
  also have "k * step + (S - ov) = Suc k * step" using assms(1) by simp
  also have "take ov (drop (Suc k * step) t) = take ov (take S (drop (Suc k * step) t))"
    using assms(1) by simp
  finally show ?thesis
    unfolding boundary_overlap_def windows_nth[OF k] windows_nth[OF assms(2)] la
    using assms(1) len by simp
qed


lemma u_simps:
  "u [] = []" "u (c # cs) = of_char c # u cs"
  by (simp_all add: u_def)


subsection \<open>Normalisation absorbs stripping\<close>

lemma split_ws_dropWhile: "split_ws (dropWhile isspace s) = split_ws s"
  by (subst split_ws.simps, subst (2) split_ws.simps) (simp add: dropWhile_idem)

lemma split_ws_Nil: "dropWhile isspace s = [] \<Longrightarrow> split_ws s = []"
  by (subst split_ws.simps) (simp only: list.case)

lemma split_ws_Cons:
  "dropWhile isspace s = c # r \<Longrightarrow>
   split_ws s = takeWhile (\<lambda>x. \<not> isspace x) (c # r) # split_ws (dropWhile (\<lambda>x. \<not> isspace x) (c # r))"
  by (subst split_ws.simps) (simp only: list.case)

lemma split_ws_trailing:
  assumes "\<forall>x\<in>set ws. isspace x"
  shows "split_ws (s @ ws) = split_ws s"
proof (induction s rule: split_ws.induct)
  case (1 s)
  have ws: "dropWhile isspace ws = []" using assms by simp
  have wsn: "dropWhile (\<lambda>x. \<not> isspace x) ws = ws" "takeWhile (\<lambda>x. \<not> isspace x) ws = []"
    using assms by (cases ws; simp)+
  show ?case
  proof (cases "dropWhile isspace s")
    case Nil
    then have "dropWhile isspace (s @ ws) = []" using ws by (simp add: dropWhile_append)
    then have "split_ws (s @ ws) = []" by (subst split_ws.simps) (simp only: list.case)
    moreover have "split_ws s = []" by (subst split_ws.simps) (simp only: Nil list.case)
    ultimately show ?thesis by simp
  next
    case (Cons c r)
    then have ex: "\<not> (\<forall>x\<in>set s. isspace x)" by (metis dropWhile_eq_Nil_conv list.distinct(1))
    have d: "dropWhile isspace (s @ ws) = (c # r) @ ws"
      using Cons ex by (simp only: dropWhile_append if_False)
    let ?nsp = "\<lambda>x. \<not> isspace x"
    have t: "takeWhile ?nsp (xs @ ws) = takeWhile ?nsp xs" for xs
      using wsn(2) by (induction xs) simp_all
    have dd: "dropWhile ?nsp (xs @ ws) = dropWhile ?nsp xs @ ws" for xs
      using wsn(1) by (induction xs) simp_all
    have "dropWhile isspace (s @ ws) = c # (r @ ws)" using d by simp
    from split_ws_Cons[OF this]
    have "split_ws (s @ ws) = takeWhile ?nsp ((c # r) @ ws) # split_ws (dropWhile ?nsp ((c # r) @ ws))"
      by (simp only: append_Cons)
    then have "split_ws (s @ ws) = takeWhile ?nsp (c # r) # split_ws (dropWhile ?nsp (c # r) @ ws)"
      by (simp only: t dd)
    also have "\<dots> = takeWhile ?nsp (c # r) # split_ws (dropWhile ?nsp (c # r))"
      using 1[OF Cons] by simp
    also have "\<dots> = split_ws s"
      using split_ws_Cons[OF Cons] by simp
    finally show ?thesis .
  qed
qed

lemma norm_ws_strip: "norm_ws (strip_ws s) = norm_ws s"
proof -
  have "dropWhile isspace s = rstrip (dropWhile isspace s) @ rev (takeWhile isspace (rev (dropWhile isspace s)))"
    unfolding rstrip_def by (metis rev_append rev_rev_ident takeWhile_dropWhile_id)
  moreover have "\<forall>x\<in>set (rev (takeWhile isspace (rev (dropWhile isspace s)))). isspace x"
    by (auto dest: set_takeWhileD)
  ultimately have "split_ws (dropWhile isspace s) = split_ws (rstrip (dropWhile isspace s))"
    using split_ws_trailing by metis
  then show ?thesis by (simp add: norm_ws_def strip_ws_def split_ws_dropWhile)
qed


subsection \<open>Without the clamp the loop does not return\<close>

lemma chunk_loop_stuck:
  assumes "chunk_loop t sz step i acc = Some r"
  shows "\<not> (step \<le> 0 \<and> i < int (length t))"
  using assms
proof (induction rule: chunk_loop.raw_induct[rotated 1, consumes 1])
  case (1 f t sz step i acc r)
  show ?case
  proof
    assume a: "step \<le> 0 \<and> i < int (length t)"
    then have "f t sz step (i + step) (acc @ [py_slice t i (i + sz)]) = Some r"
      using 1(2) by simp
    from 1(1)[OF this] a show False by simp
  qed
qed

lemma chunk_loop_unclamped: "step \<le> 0 \<Longrightarrow> i < int (length t) \<Longrightarrow> chunk_loop t sz step i acc = None"
  using chunk_loop_stuck[of t sz step i acc] by (cases "chunk_loop t sz step i acc") auto

section \<open>The loaders keep their invariant\<close>

lemma image_neq_text: "u ''image'' \<noteq> u ''text''"
  by (simp add: u_simps)

lemma text_chunk_facts:
  "is_text (text_meta_chunk c fn pg)" "\<not> is_image (text_meta_chunk c fn pg)"
  "schema_ok (text_meta_chunk c fn pg)"
  "snd (text_meta_chunk c fn pg) ''page'' = Some (page_val pg)"
  using image_neq_text
  by (auto simp: text_meta_chunk_def is_text_def is_image_def schema_ok_def)

lemma image_chunk_facts:
  "is_image (image_meta_chunk cap rel fn pg fig full)"
  "schema_ok (image_meta_chunk cap rel fn pg fig full)"
  "snd (image_meta_chunk cap rel fn pg fig full) ''figure_no'' = Some (PInt fig)"
  "snd (image_meta_chunk cap rel fn pg fig full) ''image_path'' = Some (PStr rel)"
  "snd (image_meta_chunk cap rel fn pg fig full) ''page'' = Some (page_val pg)"
  by (auto simp: image_meta_chunk_def is_image_def schema_ok_def is_PStr_def is_PInt_def)

lemma init_inv: "loader_inv e r init_state"
  by (simp add: loader_inv_def init_state_def figure_nos_def image_paths_def)

lemma text_inv:
  assumes "loader_inv e r st"
  shows "loader_inv e r (st\<lparr>results := results st @ map (\<lambda>c. text_meta_chunk c fn pg) cs\<rparr>)"
proof -
  have "filter is_image (map (\<lambda>c. text_meta_chunk c fn pg) cs) = []"
    by (simp add: filter_empty_conv text_chunk_facts)
  moreover have "list_all schema_ok (map (\<lambda>c. text_meta_chunk c fn pg) cs)"
    by (simp add: list_all_iff text_chunk_facts)
  ultimately show ?thesis
    using assms by (simp add: loader_inv_def figure_nos_def image_paths_def)
qed

lemma emit_inv:
  "loader_inv e r st \<Longrightarrow> can_write e p \<Longrightarrow> loader_inv e r (emit_image e r fn pg cap p data st)"
  by (simp add: loader_inv_def emit_image_def Let_def figure_nos_def image_paths_def
      image_chunk_facts recorded_path_def)


lemma text_chunks_eq: "text_chunks t = Inr (windows (norm_ws t) 900 750)"
  using chunk_text_windows[of CHUNK_SIZE CHUNK_OVERLAP t]
  by (simp add: text_chunks_def CHUNK_SIZE_def CHUNK_OVERLAP_def)

lemma pdf_save_inv:
  "loader_inv e r st \<Longrightarrow> loader_inv e r (pdf_save_image e a fn r pidx cap st x)"
  by (auto simp: pdf_save_image_def Let_def emit_inv split: option.splits)

lemma docx_save_inv:
  "loader_inv e r st \<Longrightarrow> loader_inv e r (docx_save_image e a fn r cap st x)"
  by (auto simp: docx_save_image_def Let_def emit_inv split: option.splits)

lemma pptx_save_inv:
  "loader_inv e r st \<Longrightarrow> loader_inv e r (pptx_save_image e a fn r sidx cap st x)"
  by (auto simp: pptx_save_image_def Let_def emit_inv split: option.splits)

lemma foldl_inv:
  assumes "\<And>st x. P st \<Longrightarrow> P (f st x)" and "P st"
  shows "P (foldl f st xs)"
  using assms(2) by (induction xs arbitrary: st) (auto intro: assms(1))

lemma for_each_inv:
  assumes "\<And>st x st'. P st \<Longrightarrow> body st x = Inr st' \<Longrightarrow> P st'"
    and "P st" and "for_each body st xs = Inr st'"
  shows "P st'"
  using assms(2,3)
proof (induction xs arbitrary: st)
  case Nil then show ?case by simp
next
  case (Cons x xs)
  then show ?case by (auto split: sum.splits dest: assms(1))
qed

lemma pdf_page_inv:
  "loader_inv e r st \<Longrightarrow> pdf_page_step e a fn r st x = Inr st' \<Longrightarrow> loader_inv e r st'"
  by (auto simp: pdf_page_step_def text_chunks_eq Let_def text_inv
      intro!: foldl_inv[where P="loader_inv e r"] pdf_save_inv split: if_splits)

lemma pptx_slide_inv:
  "loader_inv e r st \<Longrightarrow> pptx_slide_step e a fn r st x = Inr st' \<Longrightarrow> loader_inv e r st'"
  by (auto simp: pptx_slide_step_def text_chunks_eq Let_def text_inv
      intro!: foldl_inv[where P="loader_inv e r"] pptx_save_inv split: sum.splits)

lemma load_pdf_inv:
  assumes "load_pdf_with_images e fp r = Inr (res, w)"
  shows "\<exists>st. loader_inv e r st \<and> results st = res \<and> written st = w"
proof (cases "pdf_at e fp")
  case None
  with assms show ?thesis by (simp add: load_pdf_with_images_def)
next
  case (Some doc)
  show ?thesis
  proof (cases "assets_dir e fp r")
    case (Inl f)
    with assms Some show ?thesis by (simp add: load_pdf_with_images_def)
  next
    case (Inr a)
    show ?thesis
    proof (cases "for_each (pdf_page_step e a (basename fp) r) init_state (enumerate_from 0 doc)")
      case (Inl f)
      with assms Some Inr show ?thesis by (simp add: load_pdf_with_images_def)
    next
      case st: (Inr st)
      have "loader_inv e r st"
        using pdf_page_inv init_inv st by (rule for_each_inv)
      moreover have "results st = res" "written st = w"
        using assms Some Inr st by (simp_all add: load_pdf_with_images_def)
      ultimately show ?thesis by blast
    qed
  qed
qed

lemma load_pptx_inv:
  assumes "load_pptx_with_images e fp r = Inr (res, w)"
  shows "\<exists>st. loader_inv e r st \<and> results st = res \<and> written st = w"
proof (cases "pptx_at e fp")
  case None
  with assms show ?thesis by (simp add: load_pptx_with_images_def)
next
  case (Some doc)
  show ?thesis
  proof (cases "assets_dir e fp r")
    case (Inl f)
    with assms Some show ?thesis by (simp add: load_pptx_with_images_def)
  next
    case (Inr a)
    show ?thesis
    proof (cases "for_each (pptx_slide_step e a (basename fp) r) init_state (enumerate_from 1 doc)")
      case (Inl f)
      with assms Some Inr show ?thesis by (simp add: load_pptx_with_images_def)
    next
      case st: (Inr st)
      have "loader_inv e r st"
        using pptx_slide_inv init_inv st by (rule for_each_inv)
      moreover have "results st = res" "written st = w"
        using assms Some Inr st by (simp_all add: load_pptx_with_images_def)
      ultimately show ?thesis by blast
    qed
  qed
qed

lemma load_docx_inv:
  assumes "load_docx_with_images e fp r = Inr (res, w)"
  shows "\<exists>st. loader_inv e r st \<and> results st = res \<and> written st = w"
proof -
  have i: "loader_inv e r (init_state\<lparr>results := map (\<lambda>c. text_meta_chunk c fn None) cs\<rparr>)" for fn cs
    using text_inv[OF init_inv, of e r fn None cs] by (simp add: init_state_def)
  have f: "loader_inv e r (foldl (docx_save_image e a fn r cap)
      (init_state\<lparr>results := map (\<lambda>c. text_meta_chunk c fn None) cs\<rparr>) xs)" for a fn cap cs xs
    by (intro foldl_inv[where P="loader_inv e r"] docx_save_inv i)
  from assms obtain a fn cap cs xs where
    "res = results (foldl (docx_save_image e a fn r cap)
        (init_state\<lparr>results := map (\<lambda>c. text_meta_chunk c fn None) cs\<rparr>) xs)"
    "w = written (foldl (docx_save_image e a fn r cap)
        (init_state\<lparr>results := map (\<lambda>c. text_meta_chunk c fn None) cs\<rparr>) xs)"
    unfolding load_docx_with_images_def text_chunks_eq Let_def
    by (auto split: option.splits sum.splits)
  with f[of a fn cap cs xs] show ?thesis by blast
qed

lemma load_plain_eq:
  "load_plain e fp r =
     Inr (map (\<lambda>c. text_meta_chunk c (basename fp) None) (windows (norm_ws (read_text e fp)) 900 750), [])"
  by (simp add: load_plain_def text_chunks_eq)


lemma emit_attempt: "can_write e p \<Longrightarrow> attempt_ok e r st (emit_image e r fn pg cap p data st)"
  unfolding attempt_ok_def emit_image_def Let_def recorded_path_def
  by (intro disjI2 exI[of _ "image_meta_chunk cap (backslash_to_slash (relpath (getcwd e) p r)) fn pg (figure_no st) (Some cap)"]
      exI[of _ p] exI[of _ data]) (simp add: image_chunk_facts)

lemma pdf_save_attempt: "attempt_ok e r st (pdf_save_image e a fn r pidx cap st x)"
  by (auto simp: pdf_save_image_def Let_def emit_attempt split: option.splits)
    (simp_all add: attempt_ok_def)

lemma docx_save_attempt: "attempt_ok e r st (docx_save_image e a fn r cap st x)"
  by (auto simp: docx_save_image_def Let_def emit_attempt split: option.splits)
    (simp_all add: attempt_ok_def)

lemma pptx_save_attempt: "attempt_ok e r st (pptx_save_image e a fn r sidx cap st x)"
  by (auto simp: pptx_save_image_def Let_def emit_attempt split: option.splits)
    (simp_all add: attempt_ok_def)

lemma loaders_inv:
  assumes "ld \<in> {load_pdf_with_images, load_docx_with_images, load_pptx_with_images}"
    and "ld e fp r = Inr (res, w)"
  shows "\<exists>st. loader_inv e r st \<and> results st = res \<and> written st = w"
  using assms load_pdf_inv load_docx_inv load_pptx_inv by blast

lemma upt_shift: "map (\<lambda>k. f (1 + int k)) [0..<n] = map (\<lambda>k. f (int k)) [1..<Suc n]"
proof -
  have "[1..<Suc n] = map Suc [0..<n]" by (simp add: map_Suc_upt)
  then show ?thesis by (simp add: comp_def)
qed

subsection \<open>Page attribution\<close>

lemma for_each_inv_mem:
  assumes step: "\<And>st x st'. P st \<Longrightarrow> x \<in> set xs \<Longrightarrow> body st x = Inr st' \<Longrightarrow> P st'"
    and "P st" and "for_each body st xs = Inr st'"
  shows "P st'"
proof -
  have "set ys \<subseteq> set xs \<Longrightarrow> P s0 \<Longrightarrow> for_each body s0 ys = Inr st' \<Longrightarrow> P st'" for ys s0
  proof (induction ys arbitrary: s0)
    case Nil
    then show ?case by simp
  next
    case (Cons y ys)
    show ?case
    proof (cases "body s0 y")
      case (Inl f)
      with Cons.prems(3) show ?thesis by simp
    next
      case (Inr s1)
      have y: "y \<in> set xs" using Cons.prems(1) by simp
      have "P s1" using Cons.prems(2) y Inr by (rule step)
      moreover have "for_each body s1 ys = Inr st'" using Cons.prems(3) Inr by simp
      moreover have "set ys \<subseteq> set xs" using Cons.prems(1) by simp
      ultimately show ?thesis using Cons.IH[of s1] by blast
    qed
  qed
  from this[of xs st] assms(2,3) show ?thesis by simp
qed

lemma enumerate_from_fst: "x \<in> set (enumerate_from k xs) \<Longrightarrow> k \<le> fst x"
proof (cases x)
  case (Pair i y)
  assume "x \<in> set (enumerate_from k xs)"
  then have "i \<in> set (map (\<lambda>j. k + int j) [0..<length xs])"
    unfolding enumerate_from_def Pair by (rule set_zip_leftD)
  then show ?thesis using Pair by auto
qed

lemma emit_results:
  "results (emit_image e r fn pg cap p d st) =
     results st @ [image_meta_chunk cap (backslash_to_slash (relpath (getcwd e) p r)) fn pg (figure_no st) (Some cap)]"
  by (simp add: emit_image_def Let_def)

lemma page_facts:
  "page_is_none (text_meta_chunk c fn None)" "page_is_none (image_meta_chunk cap rel fn None fig full)"
  "1 \<le> n \<Longrightarrow> has_page_no (text_meta_chunk c fn (Some n))"
  "1 \<le> n \<Longrightarrow> has_page_no (image_meta_chunk cap rel fn (Some n) fig full)"
  by (simp_all add: page_is_none_def has_page_no_def text_chunk_facts image_chunk_facts page_val_def)

lemma docx_pages:
  assumes "load_docx_with_images e fp r = Inr (res, w)"
  shows "list_all page_is_none res"
proof -
  let ?P = "\<lambda>st. list_all page_is_none (results st)"
  have s: "?P st \<Longrightarrow> ?P (docx_save_image e a fn r cap st x)" for st a fn cap x
    by (auto simp: docx_save_image_def Let_def emit_results page_facts split: option.splits)
  have i: "?P (init_state\<lparr>results := map (\<lambda>c. text_meta_chunk c fn None) cs\<rparr>)" for fn cs
    by (simp add: list_all_iff page_facts)
  have f: "?P (foldl (docx_save_image e a fn r cap)
      (init_state\<lparr>results := map (\<lambda>c. text_meta_chunk c fn None) cs\<rparr>) xs)" for a fn cap cs xs
    by (rule foldl_inv[where P="?P"]) (erule s, rule i)
  from assms obtain a fn cap cs xs where
    "res = results (foldl (docx_save_image e a fn r cap)
        (init_state\<lparr>results := map (\<lambda>c. text_meta_chunk c fn None) cs\<rparr>) xs)"
    unfolding load_docx_with_images_def text_chunks_eq Let_def
    by (auto split: option.splits sum.splits)
  with f[of a fn cap cs xs] show ?thesis by simp
qed

lemma plain_pages:
  assumes "load_plain e fp r = Inr (res, w)"
  shows "list_all page_is_none res"
  using assms by (auto simp: load_plain_eq list_all_iff page_facts)

lemma pdf_pages:
  assumes "load_pdf_with_images e fp r = Inr (res, w)"
  shows "list_all has_page_no res"
proof -
  let ?P = "\<lambda>st. list_all has_page_no (results st)"
  have s: "?P st \<Longrightarrow> 0 \<le> pidx \<Longrightarrow> ?P (pdf_save_image e a fn r pidx cap st x)" for st a fn cap x pidx
    by (auto simp: pdf_save_image_def Let_def emit_results page_facts split: option.splits)
  have p: "?P st'" if "?P st" "x \<in> set (enumerate_from 0 doc)" "pdf_page_step e a fn r st x = Inr st'"
    for st x st' a fn and doc :: pdf_doc
  proof -
    have x: "0 \<le> fst x" using that(2) by (rule enumerate_from_fst)
    let ?st1 = "st\<lparr>results := results st @ map (\<lambda>c. text_meta_chunk c fn (Some (fst x + 1)))
        (windows (norm_ws (page_text (snd x))) 900 750)\<rparr>"
    have "has_page_no (text_meta_chunk c fn (Some (fst x + 1)))" for c
      using x by (intro page_facts) simp
    then have 1: "?P ?st1" using that(1) by (auto simp: list_all_iff)
    have "?P (foldl (pdf_save_image e a fn r (fst x) cap) ?st1 ys)" for cap ys
      by (rule foldl_inv[where P="?P"]) (rule s, assumption, rule x, rule 1)
    with 1 that(3) show ?thesis
      by (auto simp: pdf_page_step_def text_chunks_eq Let_def split: if_splits)
  qed
  from assms obtain doc a st where
    fe: "for_each (pdf_page_step e a (basename fp) r) init_state (enumerate_from 0 doc) = Inr st"
    and rw: "results st = res"
    unfolding load_pdf_with_images_def by (auto split: option.splits sum.splits)
  have "?P st"
    by (rule for_each_inv_mem[where P="?P", OF _ _ fe]) (erule (2) p, simp add: init_state_def)
  with rw show ?thesis by simp
qed

lemma pptx_pages:
  assumes "load_pptx_with_images e fp r = Inr (res, w)"
  shows "list_all has_page_no res"
proof -
  let ?P = "\<lambda>st. list_all has_page_no (results st)"
  have s: "?P st \<Longrightarrow> 1 \<le> sidx \<Longrightarrow> ?P (pptx_save_image e a fn r sidx cap st x)" for st a fn cap x sidx
    by (auto simp: pptx_save_image_def Let_def emit_results page_facts split: option.splits)
  have p: "?P st'" if "?P st" "x \<in> set (enumerate_from 1 doc)" "pptx_slide_step e a fn r st x = Inr st'"
    for st x st' a fn and doc :: pptx_doc
  proof -
    have x: "1 \<le> fst x" using that(2) by (rule enumerate_from_fst)
    have 1: "?P (st\<lparr>results := results st @ map (\<lambda>c. text_meta_chunk c fn (Some (fst x))) cs\<rparr>)" for cs
      using that(1) x by (auto simp: list_all_iff page_facts)
    have "?P (foldl (pptx_save_image e a fn r (fst x) cap)
        (st\<lparr>results := results st @ map (\<lambda>c. text_meta_chunk c fn (Some (fst x))) cs\<rparr>) ys)" for cap ys cs
      by (rule foldl_inv[where P="?P"]) (rule s, assumption, rule x, rule 1)
    with that(3) show ?thesis
      by (auto simp: pptx_slide_step_def text_chunks_eq Let_def split: sum.splits)
  qed
  from assms obtain doc a st where
    fe: "for_each (pptx_slide_step e a (basename fp) r) init_state (enumerate_from 1 doc) = Inr st"
    and rw: "results st = res"
    unfolding load_pptx_with_images_def by (auto split: option.splits sum.splits)
  have "?P st"
    by (rule for_each_inv_mem[where P="?P", OF _ _ fe]) (erule (2) p, simp add: init_state_def)
  with rw show ?thesis by simp
qed


subsection \<open>Captions, decoding and the empty result\<close>

lemma py_slice_prefix: "py_slice xs 0 (int n) = take n xs"
  using slice_nonneg[of 0 "int n" xs] by simp

lemma emit_caption:
  "snd (last (results (emit_image e r fn pg cap p d st))) ''caption'' = Some (PStr cap)"
  by (simp add: emit_results image_meta_chunk_def or_str_def)

lemma utf8_ignore_total: "\<exists>s. utf8_decode Ignore bs = Some s"
  by (induction Ignore bs rule: utf8_decode.induct) (auto split: option.splits)

lemma windows_empty_iff:
  assumes "0 < step" shows "windows t S step = [] \<longleftrightarrow> t = []"
proof
  assume "windows t S step = []"
  then show "t = []" using windows_nonempty[OF assms, of t S] by blast
next
  assume "t = []"
  then show "windows t S step = []" by (simp add: windows_def chunk_count_0)
qed
section \<open>Concrete runs\<close>

text \<open>The definitions a concrete run unfolds.\<close>

named_theorems run_defs

lemmas [run_defs] = u_simps demo_env_def demo_pdf_def demo_docx_def demo_pptx_def
  load_pdf_with_images_def load_docx_with_images_def load_pptx_with_images_def load_plain_def
  assets_dir_def basename_def splitext_def slug_def isalnum_def path_join_def Let_def
  enumerate_from_def upt_rec init_state_def pdf_page_step_def pdf_save_image_def pdf_caption_def
  pdf_image_name_def emit_image_def text_chunks_eq windows_def chunk_count_def
  norm_ws_collapse_strip strip_ws_def rstrip_def isspace_def str_int_def str_nat.simps
  relpath_def abs_comps_def norm_step_def backslash_to_slash_def splitlines_def is_linebreak_def
  py_slice_def slice_bound_def docx_save_image_def docx_find_images_def docx_ext_def
  docx_image_name_def pptx_slide_step_def pptx_save_image_def pptx_caption_def pptx_image_name_def
  collect_text_def or_str_def read_text_def utf8_step_def is_cont_def
  load_and_split_with_images_def lower_def

lemma demo_pdf_run:
  "load_pdf_with_images demo_env (u ''doc.pdf'') (u ''uploads'') = Inr demo_pdf_result"
  by (simp add: run_defs demo_pdf_result_def)

lemma demo_docx_run:
  "load_docx_with_images demo_env (u ''memo.docx'') (u ''uploads'') = Inr demo_docx_result"
  by (simp add: run_defs demo_docx_result_def)

lemma demo_pptx_run:
  "load_pptx_with_images demo_env (u ''deck.pptx'') (u ''uploads'') = Inr demo_pptx_result"
  by (simp add: run_defs demo_pptx_result_def)

lemma demo_pptx_run_failed_write:
  "load_pptx_with_images
     (demo_env\<lparr>can_write := (\<lambda>p. p \<noteq> u ''uploads/deck_assets/deck_s1_1.png'')\<rparr>)
     (u ''deck.pptx'') (u ''uploads'') =
   Inr ([text_meta_chunk (u ''Title'') (u ''deck.pptx'') (Some 1),
         image_meta_chunk (u ''Title'') (u ''deck_assets/deck_s1_1.jpg'') (u ''deck.pptx'') (Some 1) 1
           (Some (u ''Title''))],
        [(u ''uploads/deck_assets/deck_s1_1.jpg'', [2])])"
  by (simp add: run_defs)

lemma demo_dispatch_docx:
  "load_and_split_with_images demo_env (u ''memo.docx'') (u ''uploads'') = Inr demo_docx_result"
  unfolding demo_docx_run[symmetric] by (simp add: load_and_split_with_images_def splitext_def basename_def lower_def u_simps Let_def)

lemma demo_plain_run:
  "load_and_split_with_images demo_env (u ''blob.xyz'') (u ''uploads'') =
     Inr ([text_meta_chunk (u ''a'') (u ''blob.xyz'') None], [])"
  by (simp add: run_defs)


lemma demo_notes_run:
  "load_plain demo_env (u ''notes.txt'') (u ''uploads'') =
     Inr ([text_meta_chunk (u ''hi'') (u ''notes.txt'') None], [])"
  by (simp add: run_defs)
section \<open>Claims about the text chunker\<close>

text \<open>
  Claim C1, as stated, fails where it lets only the final slice be shorter than \<open>S\<close>: with
  \<open>S = 4\<close> and \<open>ov = 2\<close> the text \<open>abcde\<close> gives three chunks, and the second, \<open>cde\<close>, has three
  characters although it is not the final one.
\<close>

theorem short_slice_counterexample:
  "chunk_text (u ''abcde'') 4 2 = Some [u ''abcd'', u ''cde'', u ''e''] \<and>
   length (u ''cde'') = 3"
  by (simp add: chunk_text_windows u_simps norm_ws_collapse_strip strip_ws_def rstrip_def isspace_def
      windows_def chunk_count_def upt_rec)

text \<open>
  Claim C1, amended. For positive integers \<open>S\<close> and \<open>ov\<close> with \<open>ov < S\<close>, \<^verbatim>\<open>_chunk_text\<close>
  returns, and what it returns is determined by the text with every whitespace run
  collapsed to one space and both ends trimmed: nothing when that text is empty, and
  otherwise exactly its slices at the offsets \<open>0, S - ov, 2 * (S - ov), ...\<close> below its length,
  each of length \<open>S\<close> or, where fewer than \<open>S\<close> characters remain from its offset, the rest of
  the text. The last of them is the rest of the text from its offset: it reaches the end.
\<close>

theorem chunk_text_contract:
  assumes "0 < S" and "0 < ov" and "ov < S"
  shows "chunk_text raw S ov =
           Some (if strip_ws (collapse_runs raw) = [] then []
                 else windows (strip_ws (collapse_runs raw)) (nat S) (nat (S - ov))) \<and>
         (\<forall>k < chunk_count (length (strip_ws (collapse_runs raw))) (nat (S - ov)).
            windows (strip_ws (collapse_runs raw)) (nat S) (nat (S - ov)) ! k =
              take (nat S) (drop (k * nat (S - ov)) (strip_ws (collapse_runs raw))) \<and>
            length (windows (strip_ws (collapse_runs raw)) (nat S) (nat (S - ov)) ! k) =
              min (nat S) (length (strip_ws (collapse_runs raw)) - k * nat (S - ov))) \<and>
         (strip_ws (collapse_runs raw) \<noteq> [] \<longrightarrow>
            last (windows (strip_ws (collapse_runs raw)) (nat S) (nat (S - ov))) =
            drop ((chunk_count (length (strip_ws (collapse_runs raw))) (nat (S - ov)) - 1)
                    * nat (S - ov)) (strip_ws (collapse_runs raw)))"
proof -
  let ?t = "strip_ws (collapse_runs raw)"
  have t: "norm_ws raw = ?t" by (rule norm_ws_collapse_strip)
  have "chunk_text raw S ov = Some (windows ?t (nat S) (nat (S - ov)))"
    using chunk_text_windows[of S ov raw] assms t by simp
  moreover have "?t = [] \<Longrightarrow> windows ?t (nat S) (nat (S - ov)) = []"
    by (simp add: windows_def chunk_count_0)
  ultimately have first: "chunk_text raw S ov =
      Some (if ?t = [] then [] else windows ?t (nat S) (nat (S - ov)))"
    by simp
  have third: "?t \<noteq> [] \<longrightarrow> last (windows ?t (nat S) (nat (S - ov))) =
      drop ((chunk_count (length ?t) (nat (S - ov)) - 1) * nat (S - ov)) ?t"
    using assms by (intro impI windows_last) simp_all
  have second: "\<forall>k < chunk_count (length ?t) (nat (S - ov)).
      windows ?t (nat S) (nat (S - ov)) ! k = take (nat S) (drop (k * nat (S - ov)) ?t) \<and>
      length (windows ?t (nat S) (nat (S - ov)) ! k) = min (nat S) (length ?t - k * nat (S - ov))"
    by (simp add: windows_nth min.commute)
  from first second third show ?thesis by (intro conjI)
qed

theorem chunk_text_contract_witness:
  "(0::int) < 4 \<and> (0::int) < 1 \<and> (1::int) < 4 \<and>
   chunk_text (u ''  ab  cde f '') 4 1 = Some [u ''ab c'', u ''cde '', u '' f'']"
  using chunk_text_contract[of 4 1 "u ''  ab  cde f ''"]
  by (simp add: u_simps strip_ws_def rstrip_def isspace_def windows_def chunk_count_def upt_rec)

text \<open>
  Claim C2, as stated, fails on the overlap law: with \<open>S = 4\<close> and \<open>ov = 3\<close> the text
  \<open>abcdef\<close> gives six chunks, and the fourth and fifth, \<open>def\<close> and \<open>ef\<close>, share two characters,
  not three, although \<open>ef\<close> is not the final chunk.
\<close>

theorem overlap_law_counterexample:
  "chunk_text (u ''abcdef'') 4 3 =
     Some [u ''abcd'', u ''bcde'', u ''cdef'', u ''def'', u ''ef'', u ''f''] \<and>
   \<not> boundary_overlap 3 (u ''def'') (u ''ef'')"
  by (simp add: chunk_text_windows u_simps norm_ws_collapse_strip strip_ws_def rstrip_def isspace_def
      windows_def chunk_count_def upt_rec boundary_overlap_def)

text \<open>
  Claim C2, amended. For \<open>0 \<le> ov < S\<close> the chunker returns chunks from which the normalized
  text is rebuilt exactly by taking the first chunk and every later chunk without its first
  \<open>ov\<close> characters. Two consecutive chunks share exactly \<open>ov\<close> characters at their boundary
  whenever the second of them has at least \<open>ov\<close> characters; when \<open>2 * ov \<le> S\<close> this is every
  boundary except possibly the one with the final chunk.
\<close>

theorem chunk_coverage_and_overlap:
  assumes "0 \<le> ov" and "ov < S"
  shows "\<exists>cs. chunk_text raw S ov = Some cs \<and>
           rebuild (nat ov) cs = norm_ws raw \<and>
           (\<forall>k. Suc k < length cs \<and> nat ov \<le> length (cs ! Suc k) \<longrightarrow>
                 boundary_overlap (nat ov) (cs ! k) (cs ! Suc k)) \<and>
           (2 * ov \<le> S \<longrightarrow>
              (\<forall>k. Suc (Suc k) < length cs \<longrightarrow>
                 boundary_overlap (nat ov) (cs ! k) (cs ! Suc k)))"
proof -
  let ?t = "norm_ws raw" and ?S = "nat S" and ?o = "nat ov" and ?st = "nat (S - ov)"
  let ?cs = "windows ?t ?S ?st"
  have S: "0 < S" using assms by simp
  have sum: "?o + ?st = ?S" using assms by simp
  have st: "0 < ?st" using assms by simp
  have c: "chunk_text raw S ov = Some ?cs" using chunk_text_windows[OF S assms] .
  have r: "rebuild ?o ?cs = ?t" using rebuild_windows[OF sum st] .
  have o1: "boundary_overlap ?o (?cs ! k) (?cs ! Suc k)"
    if "Suc k < length ?cs" "?o \<le> length (?cs ! Suc k)" for k
    using that windows_overlap[OF sum, of k ?t] by (simp add: windows_length)
  have o2: "boundary_overlap ?o (?cs ! k) (?cs ! Suc k)"
    if two: "2 * ov \<le> S" and k: "Suc (Suc k) < length ?cs" for k
  proof -
    have k1: "Suc k < chunk_count (length ?t) ?st" using k by (simp add: windows_length)
    have "Suc (Suc k) * ?st < length ?t"
      using k by (intro chunk_count_start) (simp add: windows_length)
    then have "?st < length ?t - Suc k * ?st" by simp
    moreover have "?o \<le> ?st" using two assms by simp
    moreover have "?o \<le> ?S" using assms by simp
    ultimately have "?o \<le> length (?cs ! Suc k)" using k1 by (simp add: windows_nth)
    then show ?thesis using o1 k by simp
  qed
  show ?thesis using c r o1 o2 by blast
qed

theorem chunk_coverage_and_overlap_witness:
  "(0::int) \<le> 2 \<and> (2::int) < 4 \<and>
   chunk_text (u ''ab cdef'') 4 2 = Some [u ''ab c'', u '' cde'', u ''def'', u ''f''] \<and>
   rebuild 2 [u ''ab c'', u '' cde'', u ''def'', u ''f''] = norm_ws (u ''ab cdef'') \<and>
   boundary_overlap 2 (u ''ab c'') (u '' cde'') \<and> boundary_overlap 2 (u '' cde'') (u ''def'')"
proof -
  have e: "chunk_text (u ''ab cdef'') 4 2 = Some [u ''ab c'', u '' cde'', u ''def'', u ''f'']"
    by (simp add: chunk_text_windows u_simps norm_ws_collapse_strip strip_ws_def rstrip_def
        isspace_def windows_def chunk_count_def upt_rec)
  from chunk_coverage_and_overlap[of 2 4 "u ''ab cdef''"] e
  have "rebuild 2 [u ''ab c'', u '' cde'', u ''def'', u ''f''] = norm_ws (u ''ab cdef'')"
    and "\<forall>k. Suc (Suc k) < 4 \<longrightarrow>
            boundary_overlap 2 ([u ''ab c'', u '' cde'', u ''def'', u ''f''] ! k)
              ([u ''ab c'', u '' cde'', u ''def'', u ''f''] ! Suc k)"
    by auto
  then show ?thesis using e
    by (auto dest: spec[of _ 0] spec[of _ 1])
qed

text \<open>
  Claim C10. \<^verbatim>\<open>_chunk_text\<close> returns a list for every text and every pair of integers
  \<open>sz\<close>, \<open>ov\<close>, also when \<open>ov \<ge> sz\<close> or when either is negative: the loop advances by
  \<open>max (sz - ov) 1 \<ge> 1\<close>, so it runs at most once per character of the normalized text.
  The clamp is what makes it return: with the step \<open>sz - ov \<le> 0\<close> itself, the loop over a
  non-empty text has no result.
\<close>

theorem chunk_text_returns:
  "(\<exists>cs. chunk_text raw sz ov = Some cs \<and> length cs \<le> length (norm_ws raw)) \<and>
   (sz - ov \<le> 0 \<and> norm_ws raw \<noteq> [] \<longrightarrow>
      chunk_loop (norm_ws raw) sz (sz - ov) 0 [] = None)"
proof -
  have "\<exists>cs. chunk_text raw sz ov = Some cs \<and> length cs \<le> length (norm_ws raw)"
    unfolding chunk_text_eq by (simp add: chunk_count_le)
  moreover have "sz - ov \<le> 0 \<and> norm_ws raw \<noteq> [] \<longrightarrow>
      chunk_loop (norm_ws raw) sz (sz - ov) 0 [] = None"
    by (auto intro: chunk_loop_unclamped)
  ultimately show ?thesis by (rule conjI)
qed

theorem chunk_text_returns_witness:
  "(2::int) - 5 \<le> 0 \<and> norm_ws (u ''abc'') \<noteq> [] \<and>
   chunk_text (u ''abc'') 2 5 = Some [u ''ab'', u ''bc'', u ''c''] \<and>
   chunk_loop (norm_ws (u ''abc'')) 2 (2 - 5) 0 [] = None"
proof -
  have n: "norm_ws (u ''abc'') = u ''abc''"
    by (simp add: norm_ws_collapse_strip strip_ws_def rstrip_def isspace_def u_simps)
  have ne: "u ''abc'' \<noteq> []" by (simp add: u_simps)
  have c: "chunk_text (u ''abc'') 2 5 = Some [u ''ab'', u ''bc'', u ''c'']"
    unfolding chunk_text_eq n
    by (simp add: u_simps chunk_count_def upt_rec py_slice_def slice_bound_def)
  from chunk_text_returns[of "u ''abc''" 2 5] n ne
  have "chunk_loop (norm_ws (u ''abc'')) 2 (2 - 5) 0 [] = None" by simp
  with n ne c show ?thesis by simp
qed
section \<open>Claims about the loaders\<close>

text \<open>
  Claim C3. For each of the PDF, DOCX and PPTX loaders, a call that returns the chunks
  \<open>res\<close> and has written the image files \<open>w\<close> (one per image saved successfully) emits
  exactly \<open>length w\<close> image chunks, and their figure numbers are \<open>1, 2, ..., length w\<close> in the
  order of the result. An image that fails adds no file and no number, and every call
  starts again at 1.
\<close>

theorem figure_numbers_sequential:
  assumes "ld \<in> {load_pdf_with_images, load_docx_with_images, load_pptx_with_images}"
    and "ld e fp r = Inr (res, w)"
  shows "figure_nos res = map (\<lambda>k. Some (PInt (int k))) [1..<Suc (length w)] \<and>
         length (filter is_image res) = length w"
proof -
  from loaders_inv[OF assms] obtain st where
    inv: "loader_inv e r st" and rw: "results st = res" "written st = w" by blast
  have f: "figure_nos res = map (\<lambda>k. Some (PInt (1 + int k))) [0..<length w]"
    using inv rw by (simp add: loader_inv_def)
  then have "figure_nos res = map (\<lambda>k. Some (PInt (int k))) [1..<Suc (length w)]"
    using upt_shift[of "\<lambda>i. Some (PInt i)" "length w"] by simp
  moreover have "length (filter is_image res) = length w"
    using arg_cong[OF f, of length] by (simp add: figure_nos_def)
  ultimately show ?thesis by simp
qed

theorem figure_numbers_sequential_witness:
  "load_pdf_with_images \<in> {load_pdf_with_images, load_docx_with_images, load_pptx_with_images} \<and>
   load_pdf_with_images demo_env (u ''doc.pdf'') (u ''uploads'') = Inr demo_pdf_result \<and>
   length (snd demo_pdf_result) = 2 \<and>
   figure_nos (fst demo_pdf_result) = [Some (PInt 1), Some (PInt 2)]"
proof -
  have r: "load_pdf_with_images demo_env (u ''doc.pdf'') (u ''uploads'') =
      Inr (fst demo_pdf_result, snd demo_pdf_result)"
    by (simp add: demo_pdf_run)
  have l: "length (snd demo_pdf_result) = 2" by (simp add: demo_pdf_result_def)
  from figure_numbers_sequential[where ld=load_pdf_with_images, OF _ r]
  have "figure_nos (fst demo_pdf_result) = map (\<lambda>k. Some (PInt (int k))) [1..<Suc 2]"
    unfolding l by simp
  then show ?thesis using l demo_pdf_run by (simp add: upt_rec)
qed

text \<open>
  Claim C4. Every chunk the dispatcher returns, from whichever loader, fits the schema: a
  text chunk has none of the keys \<^verbatim>\<open>image_path\<close>, \<^verbatim>\<open>figure_no\<close>, \<^verbatim>\<open>caption\<close>, and an image
  chunk has all three, the caption being a string.
\<close>

theorem chunks_fit_schema:
  assumes "load_and_split_with_images e fp r = Inr (res, w)"
  shows "list_all schema_ok res"
proof -
  consider "load_pdf_with_images e fp r = Inr (res, w)" | "load_docx_with_images e fp r = Inr (res, w)"
    | "load_pptx_with_images e fp r = Inr (res, w)" | "load_plain e fp r = Inr (res, w)"
    using assms by (auto simp: load_and_split_with_images_def Let_def split: if_splits)
  then show ?thesis
  proof cases
    case 1 from load_pdf_inv[OF this] show ?thesis by (auto simp: loader_inv_def)
  next
    case 2 from load_docx_inv[OF this] show ?thesis by (auto simp: loader_inv_def)
  next
    case 3 from load_pptx_inv[OF this] show ?thesis by (auto simp: loader_inv_def)
  next
    case 4 then show ?thesis by (auto simp: load_plain_eq list_all_iff text_chunk_facts)
  qed
qed

theorem chunks_fit_schema_witness:
  "load_and_split_with_images demo_env (u ''memo.docx'') (u ''uploads'') = Inr demo_docx_result \<and>
   list_all schema_ok (fst demo_docx_result)"
proof -
  have r: "load_and_split_with_images demo_env (u ''memo.docx'') (u ''uploads'') =
      Inr (fst demo_docx_result, snd demo_docx_result)"
    by (simp add: demo_dispatch_docx)
  from chunks_fit_schema[OF r] show ?thesis by (simp add: demo_dispatch_docx)
qed

text \<open>
  Claim C6. In every loader the image chunks of the result are, in order, the chunks for
  the image files this call has written, and each of these files is one the world let it
  write. One attempt to save an image either changes nothing or writes one file and
  appends its one chunk; when decoding (or converting) the image raises or the file
  cannot be written, the state after the attempt is the state before it.
\<close>

theorem image_chunk_only_after_write:
  assumes "ld \<in> {load_pdf_with_images, load_docx_with_images, load_pptx_with_images}"
    and "ld e fp r = Inr (res, w)"
  shows "image_paths res = map (\<lambda>f. recorded_path e r (fst f)) w \<and>
         list_all (\<lambda>f. can_write e (fst f)) w \<and>
         attempt_ok e r st (pdf_save_image e a fn r pidx cap st x) \<and>
         attempt_ok e r st (docx_save_image e a fn r cap st y) \<and>
         attempt_ok e r st (pptx_save_image e a fn r sidx cap st sh) \<and>
         (img_pixmap (snd x) = None \<or>
          (case img_pixmap (snd x) of None \<Rightarrow> False
           | Some pix \<Rightarrow> 4 < pix_n pix \<and> img_rgb (snd x) = None) \<or>
          \<not> can_write e (path_join a (pdf_image_name e fn pidx (fst x)))
          \<longrightarrow> pdf_save_image e a fn r pidx cap st x = st) \<and>
         ((case shape_image sh of None \<Rightarrow> True
           | Some img \<Rightarrow>
               (case image_filename img of None \<Rightarrow> True
                | Some name \<Rightarrow>
                    \<not> can_write e (path_join a (pptx_image_name e fn sidx (figure_no st)
                                     (or_str (snd (splitext name)) (u ''.png''))))))
          \<longrightarrow> pptx_save_image e a fn r sidx cap st sh = st)"
proof -
  from loaders_inv[OF assms] obtain st0 where
    "loader_inv e r st0" "results st0 = res" "written st0 = w" by blast
  then have "image_paths res = map (\<lambda>f. recorded_path e r (fst f)) w"
    and "list_all (\<lambda>f. can_write e (fst f)) w"
    by (simp_all add: loader_inv_def)
  moreover have "img_pixmap (snd x) = None \<or>
      (case img_pixmap (snd x) of None \<Rightarrow> False
       | Some pix \<Rightarrow> 4 < pix_n pix \<and> img_rgb (snd x) = None) \<or>
      \<not> can_write e (path_join a (pdf_image_name e fn pidx (fst x)))
      \<longrightarrow> pdf_save_image e a fn r pidx cap st x = st"
    by (auto simp: pdf_save_image_def Let_def split: option.splits)
  moreover have "(case shape_image sh of None \<Rightarrow> True
       | Some img \<Rightarrow>
           (case image_filename img of None \<Rightarrow> True
            | Some name \<Rightarrow>
                \<not> can_write e (path_join a (pptx_image_name e fn sidx (figure_no st)
                                 (or_str (snd (splitext name)) (u ''.png''))))))
      \<longrightarrow> pptx_save_image e a fn r sidx cap st sh = st"
    by (auto simp: pptx_save_image_def Let_def split: option.splits)
  moreover note pdf_save_attempt[of e r st a fn pidx cap x]
    docx_save_attempt[of e r st a fn cap y] pptx_save_attempt[of e r st a fn sidx cap sh]
  ultimately show ?thesis by (intro conjI) assumption+
qed

theorem image_chunk_only_after_write_witness:
  "load_pptx_with_images \<in> {load_pdf_with_images, load_docx_with_images, load_pptx_with_images} \<and>
   load_pptx_with_images demo_env (u ''deck.pptx'') (u ''uploads'') = Inr demo_pptx_result \<and>
   image_paths (fst demo_pptx_result) =
     map (\<lambda>f. recorded_path demo_env (u ''uploads'') (fst f)) (snd demo_pptx_result) \<and>
   img_pixmap (snd (1, hd (page_images (demo_pdf ! 1)))) = None \<and>
   pdf_save_image demo_env (u ''uploads/doc_assets'') (u ''doc.pdf'') (u ''uploads'') 1 (u ''Fig page'')
     init_state (1, hd (page_images (demo_pdf ! 1))) = init_state"
proof -
  have r: "load_pptx_with_images demo_env (u ''deck.pptx'') (u ''uploads'') =
      Inr (fst demo_pptx_result, snd demo_pptx_result)"
    by (simp add: demo_pptx_run)
  have n: "img_pixmap (snd (1::int, hd (page_images (demo_pdf ! 1)))) = None"
    by (simp add: demo_pdf_def)
  from image_chunk_only_after_write[where ld=load_pptx_with_images, OF _ r,
      where x="(1, hd (page_images (demo_pdf ! 1)))" and a="u ''uploads/doc_assets''"
        and fn="u ''doc.pdf''" and pidx=1 and cap="u ''Fig page''" and st=init_state]
  show ?thesis using n by (simp add: demo_pptx_run)
qed

text \<open>
  Claim C9: the code departs from it in the PPTX loader. The file name of a picture there is
  built from the running figure counter, not from the position of the picture on its
  slide as in the PDF and DOCX loaders, so it depends on which earlier images were saved.
  In the same deck, the second picture is saved as \<open>deck_s1_2.jpg\<close> when the first picture was
  written and as \<open>deck_s1_1.jpg\<close> when the write of the first picture failed.
\<close>

theorem pptx_image_name_depends_on_earlier_writes:
  "(case load_pptx_with_images demo_env (u ''deck.pptx'') (u ''uploads'') of
      Inl f \<Rightarrow> [] | Inr x \<Rightarrow> image_paths (fst x)) =
     [Some (PStr (u ''deck_assets/deck_s1_1.png'')), Some (PStr (u ''deck_assets/deck_s1_2.jpg''))] \<and>
   (case load_pptx_with_images
           (demo_env\<lparr>can_write := (\<lambda>p. p \<noteq> u ''uploads/deck_assets/deck_s1_1.png'')\<rparr>)
           (u ''deck.pptx'') (u ''uploads'') of
      Inl f \<Rightarrow> [] | Inr x \<Rightarrow> image_paths (fst x)) =
     [Some (PStr (u ''deck_assets/deck_s1_1.jpg''))]"
  by (simp add: demo_pptx_run demo_pptx_run_failed_write demo_pptx_result_def image_paths_def
      image_chunk_facts text_chunk_facts)
text \<open>
  Claim C7, as stated, fails: the caption is not the alt-text verbatim. The first picture
  of the deck has the alt-text \<open>a  b\<close> with two spaces, and its chunk has the caption \<open>a b\<close>.
\<close>

theorem alt_text_not_verbatim_counterexample:
  "shape_alt_text (demo_pptx ! 0 ! 1) = Some (u ''a  b'') \<and>
   load_pptx_with_images demo_env (u ''deck.pptx'') (u ''uploads'') = Inr demo_pptx_result \<and>
   snd (fst demo_pptx_result ! 1) ''caption'' = Some (PStr (u ''a b'')) \<and>
   u ''a b'' \<noteq> u ''a  b''"
proof -
  have a: "shape_alt_text (demo_pptx ! 0 ! 1) = Some (u ''a  b'')"
    by (simp add: demo_pptx_def)
  have c: "snd (fst demo_pptx_result ! 1) ''caption'' = Some (PStr (u ''a b''))"
    by (simp add: demo_pptx_result_def image_meta_chunk_def or_str_def u_simps)
  have d: "u ''a b'' \<noteq> u ''a  b''" by (simp add: u_simps)
  from a demo_pptx_run c d show ?thesis by (intro conjI)
qed

text \<open>
  Claim C7, amended. For every PPTX picture shape that is saved, the caption of the emitted
  image chunk is the whitespace-normalized alt-text when that is non-empty; when the
  alt-text is empty, only whitespace or unavailable, it is the caption context, and the
  caption context the slide loop passes is the normalized slide text cut to 300 characters.
\<close>

theorem pptx_caption_rule:
  assumes "shape_type sh = Some PICTURE" and "shape_image sh = Some img"
    and "image_filename img = Some name"
    and "can_write e (path_join a (pptx_image_name e fn sidx (figure_no st)
                        (or_str (snd (splitext name)) (u ''.png''))))"
  shows "(\<exists>c. results (pptx_save_image e a fn r sidx ctx st sh) = results st @ [c] \<and>
              is_image c \<and>
              snd c ''caption'' =
                Some (PStr (let alt = (case shape_alt_text sh of None \<Rightarrow> [] | Some t \<Rightarrow> t)
                            in if norm_ws alt \<noteq> [] then norm_ws alt else ctx))) \<and>
         pptx_slide_step e a fn r st0 (sidx, shapes) =
           (case for_each collect_text [] shapes of
              Inl f \<Rightarrow> Inl f
            | Inr texts \<Rightarrow>
                Inr (foldl (pptx_save_image e a fn r sidx (take 300 (norm_ws (join_str [10] texts))))
                       (st0\<lparr>results := results st0 @
                               map (\<lambda>c. text_meta_chunk c fn (Some sidx))
                                 (windows (norm_ws (join_str [10] texts)) 900 750)\<rparr>)
                       shapes))"
proof -
  let ?alt = "case shape_alt_text sh of None \<Rightarrow> [] | Some t \<Rightarrow> t"
  have cap: "pptx_caption sh ctx = (if norm_ws ?alt \<noteq> [] then norm_ws ?alt else ctx)"
    by (simp add: pptx_caption_def or_str_def norm_ws_strip split: option.splits)
  let ?p = "path_join a (pptx_image_name e fn sidx (figure_no st)
      (or_str (snd (splitext name)) (u ''.png'')))"
  have step: "pptx_save_image e a fn r sidx ctx st sh =
      emit_image e r fn (Some sidx) (pptx_caption sh ctx) ?p (image_blob img) st"
    using assms by (simp add: pptx_save_image_def Let_def)
  let ?c = "image_meta_chunk (pptx_caption sh ctx) (backslash_to_slash (relpath (getcwd e) ?p r))
      fn (Some sidx) (figure_no st) (Some (pptx_caption sh ctx))"
  have "results (pptx_save_image e a fn r sidx ctx st sh) = results st @ [?c]"
    unfolding step by (rule emit_results)
  moreover have "is_image ?c" by (rule image_chunk_facts)
  moreover have "snd ?c ''caption'' = Some (PStr (if norm_ws ?alt \<noteq> [] then norm_ws ?alt else ctx))"
    unfolding cap[symmetric] by (simp add: image_meta_chunk_def or_str_def)
  ultimately have first: "\<exists>c. results (pptx_save_image e a fn r sidx ctx st sh) = results st @ [c] \<and>
      is_image c \<and>
      snd c ''caption'' =
        Some (PStr (let alt = ?alt in if norm_ws alt \<noteq> [] then norm_ws alt else ctx))"
    unfolding Let_def by blast
  have ps: "py_slice xs 0 300 = take 300 xs" for xs :: pystr
    using py_slice_prefix[of xs 300] by simp
  have second: "pptx_slide_step e a fn r st0 (sidx, shapes) =
      (case for_each collect_text [] shapes of
         Inl f \<Rightarrow> Inl f
       | Inr texts \<Rightarrow>
           Inr (foldl (pptx_save_image e a fn r sidx (take 300 (norm_ws (join_str [10] texts))))
                  (st0\<lparr>results := results st0 @
                          map (\<lambda>c. text_meta_chunk c fn (Some sidx))
                            (windows (norm_ws (join_str [10] texts)) 900 750)\<rparr>)
                  shapes))"
    by (simp add: pptx_slide_step_def text_chunks_eq Let_def ps split: sum.splits)
  from first second show ?thesis by (rule conjI)
qed

theorem pptx_caption_rule_witness:
  "shape_type (demo_pptx ! 0 ! 1) = Some PICTURE \<and>
   shape_alt_text (demo_pptx ! 0 ! 1) = Some (u ''a  b'') \<and>
   (\<exists>c. results (pptx_save_image demo_env (u ''uploads/deck_assets'') (u ''deck.pptx'') (u ''uploads'')
                    1 (u ''Title'') init_state (demo_pptx ! 0 ! 1)) = [c] \<and>
        snd c ''caption'' = Some (PStr (u ''a b'')))"
proof -
  let ?sh = "demo_pptx ! 0 ! 1"
  let ?img = "\<lparr>image_filename = Some (u ''image.png''), image_blob = [1]\<rparr>"
  have t: "shape_type ?sh = Some PICTURE" by (simp add: demo_pptx_def)
  have i: "shape_image ?sh = Some ?img" by (simp add: demo_pptx_def)
  have f: "image_filename ?img = Some (u ''image.png'')" by simp
  have alt: "shape_alt_text ?sh = Some (u ''a  b'')" by (simp add: demo_pptx_def)
  have n: "norm_ws (u ''a  b'') = u ''a b''"
    by (simp add: norm_ws_collapse_strip strip_ws_def rstrip_def isspace_def u_simps)
  have ne: "u ''a b'' \<noteq> []" by (simp add: u_simps)
  have w: "can_write demo_env p" for p by (simp add: demo_env_def)
  have cap: "(let alt = (case shape_alt_text ?sh of None \<Rightarrow> [] | Some t \<Rightarrow> t)
              in if norm_ws alt \<noteq> [] then norm_ws alt else u ''Title'') = u ''a b''"
    unfolding alt by (simp add: n ne)
  have r0: "results init_state = []" by (simp add: init_state_def)
  from pptx_caption_rule[where a="u ''uploads/deck_assets''" and fn="u ''deck.pptx''" and sidx=1
      and st=init_state and r="u ''uploads''" and ctx="u ''Title''", OF t i f w, THEN conjunct1]
  have "\<exists>c. results (pptx_save_image demo_env (u ''uploads/deck_assets'') (u ''deck.pptx'')
                    (u ''uploads'') 1 (u ''Title'') init_state ?sh) = [c] \<and>
        snd c ''caption'' = Some (PStr (u ''a b''))"
    unfolding cap r0 by auto
  with t alt show ?thesis by (intro conjI)
qed

text \<open>
  Claim C8, as stated, fails: the \<^verbatim>\<open>page\<close> key is not absent from the metadata of a
  plain-text chunk. It is present and holds \<^verbatim>\<open>None\<close>.
\<close>

theorem page_key_present_counterexample:
  "load_plain demo_env (u ''notes.txt'') (u ''uploads'') =
     Inr ([text_meta_chunk (u ''hi'') (u ''notes.txt'') None], []) \<and>
   ''page'' \<in> dom (snd (text_meta_chunk (u ''hi'') (u ''notes.txt'') None))"
proof -
  have "''page'' \<in> dom (snd (text_meta_chunk (u ''hi'') (u ''notes.txt'') None))"
    by (simp add: text_meta_chunk_def)
  with demo_notes_run show ?thesis by (intro conjI)
qed

text \<open>
  Claim C8, amended. Every chunk of the DOCX loader and of the plain-text loader has the
  \<^verbatim>\<open>page\<close> key in its metadata with the value \<^verbatim>\<open>None\<close>; every chunk of the PDF and PPTX
  loaders has a number from 1 on there (the page, the slide).
\<close>

theorem page_attribution:
  assumes "ld e fp r = Inr (res, w)"
  shows "(ld \<in> {load_docx_with_images, load_plain} \<longrightarrow> list_all page_is_none res) \<and>
         (ld \<in> {load_pdf_with_images, load_pptx_with_images} \<longrightarrow> list_all has_page_no res)"
  using assms docx_pages plain_pages pdf_pages pptx_pages by blast

theorem page_attribution_witness:
  "load_plain \<in> {load_docx_with_images, load_plain} \<and>
   load_plain demo_env (u ''notes.txt'') (u ''uploads'') =
     Inr ([text_meta_chunk (u ''hi'') (u ''notes.txt'') None], []) \<and>
   list_all page_is_none [text_meta_chunk (u ''hi'') (u ''notes.txt'') None] \<and>
   load_pdf_with_images \<in> {load_pdf_with_images, load_pptx_with_images} \<and>
   load_pdf_with_images demo_env (u ''doc.pdf'') (u ''uploads'') = Inr demo_pdf_result \<and>
   list_all has_page_no (fst demo_pdf_result)"
proof -
  have p: "load_pdf_with_images demo_env (u ''doc.pdf'') (u ''uploads'') =
      Inr (fst demo_pdf_result, snd demo_pdf_result)"
    by (simp add: demo_pdf_run)
  from page_attribution[where ld=load_plain, OF demo_notes_run]
    page_attribution[where ld=load_pdf_with_images, OF p]
  show ?thesis by (simp add: demo_notes_run demo_pdf_run)
qed

text \<open>
  Claim C5, as stated, fails in its last part: bytes that cannot be decoded as UTF-8 do
  not give zero chunks. The file \<open>blob.xyz\<close> holds the byte \<open>0xFF\<close> and the letter \<open>a\<close>;
  strict decoding fails, and the dispatcher returns one chunk, \<open>a\<close>.
\<close>

theorem undecodable_bytes_counterexample:
  "bytes_at demo_env (u ''blob.xyz'') = Some [255, 97] \<and>
   utf8_decode Strict [255, 97] = None \<and>
   load_and_split_with_images demo_env (u ''blob.xyz'') (u ''uploads'') =
     Inr ([text_meta_chunk (u ''a'') (u ''blob.xyz'') None], [])"
proof -
  have a: "bytes_at demo_env (u ''blob.xyz'') = Some [255, 97]"
    by (simp add: demo_env_def u_simps)
  have b: "utf8_decode Strict [255, 97] = None"
    by (simp add: utf8_step_def)
  from a b demo_plain_run show ?thesis by (intro conjI)
qed

text \<open>
  Claim C5, amended. The dispatcher lowers the extension of the path and routes \<open>.pdf\<close>,
  \<open>.docx\<close> and \<open>.pptx\<close> to their loaders; every other extension, \<open>.txt\<close>, \<open>.csv\<close> and \<open>.md\<close>
  among them, goes to the plain loader, which never fails: decoding with the \<open>ignore\<close>
  handler always gives a text (bytes that are not valid UTF-8 are dropped, and a file that
  cannot be read gives the empty text), and the result is the chunks of that text, with no
  file written. It is empty exactly when the normalized text is empty.
\<close>

theorem dispatcher_total:
  "load_and_split_with_images e fp r =
     (let ext = lower (snd (splitext fp))
      in if ext = u ''.pdf'' then load_pdf_with_images e fp r
         else if ext = u ''.docx'' then load_docx_with_images e fp r
         else if ext = u ''.pptx'' then load_pptx_with_images e fp r
         else Inr (map (\<lambda>c. text_meta_chunk c (basename fp) None)
                     (windows (norm_ws (read_text e fp)) 900 750), [])) \<and>
   (windows (norm_ws (read_text e fp)) 900 750 = [] \<longleftrightarrow> norm_ws (read_text e fp) = []) \<and>
   (\<exists>s. utf8_decode Ignore bs = Some s) \<and>
   read_text e fp =
     (case bytes_at e fp of None \<Rightarrow> []
      | Some b \<Rightarrow> universal_newlines (the (utf8_decode Ignore b)))"
proof -
  have "read_text e fp =
     (case bytes_at e fp of None \<Rightarrow> []
      | Some b \<Rightarrow> universal_newlines (the (utf8_decode Ignore b)))"
  proof (cases "bytes_at e fp")
    case None
    then show ?thesis by (simp add: read_text_def)
  next
    case (Some b)
    obtain s where "utf8_decode Ignore b = Some s" using utf8_ignore_total by blast
    with Some show ?thesis by (simp add: read_text_def)
  qed
  then show ?thesis
    using utf8_ignore_total[of bs] windows_empty_iff[of 750 "norm_ws (read_text e fp)" 900]
    by (simp add: load_and_split_with_images_def Let_def load_plain_eq)
qed

theorem dispatcher_total_witness:
  "load_and_split_with_images demo_env (u ''Memo.DOCX'') (u ''uploads'') =
     load_docx_with_images demo_env (u ''Memo.DOCX'') (u ''uploads'') \<and>
   load_and_split_with_images demo_env (u ''blob.xyz'') (u ''uploads'') =
     Inr ([text_meta_chunk (u ''a'') (u ''blob.xyz'') None], [])"
proof -
  have x: "lower (snd (splitext (u ''Memo.DOCX''))) = u ''.docx''"
    by (simp add: lower_def splitext_def basename_def u_simps Let_def)
  from dispatcher_total[of demo_env "u ''Memo.DOCX''" "u ''uploads''" "[]"]
  have "load_and_split_with_images demo_env (u ''Memo.DOCX'') (u ''uploads'') =
     load_docx_with_images demo_env (u ''Memo.DOCX'') (u ''uploads'')"
    unfolding x Let_def by (simp add: u_simps)
  then show ?thesis by (simp add: demo_plain_run)
qed

end
